theory Spec2Isabelle
  imports Main "HOL-Library.Sublist"
begin

section \<open>Text primitives\<close>

text \<open>
  Python's \<^verbatim>\<open>str\<close> is modelled by \<^typ>\<open>string\<close>: a list of 8-bit characters, that is
  the code points below 256. On these code points the regular-expression class
  \<^verbatim>\<open>\d\<close> holds the ten ASCII digits only, and \<^verbatim>\<open>\s\<close> (as well as the whitespace
  of \<^verbatim>\<open>str.strip\<close>) is the set given by \<open>is_space\<close>. With \<^verbatim>\<open>re.IGNORECASE\<close> the
  letters Q, F and Y match themselves and their lower-case forms and nothing else.
\<close>

definition is_digit :: "char \<Rightarrow> bool" where
  "is_digit c = (c \<in> set ''0123456789'')"

definition is_space :: "char \<Rightarrow> bool" where
  "is_space c = (c \<in> set [CHR 0x09, CHR 0x0A, CHR 0x0B, CHR 0x0C, CHR 0x0D,
                           CHR 0x1C, CHR 0x1D, CHR 0x1E, CHR 0x1F, CHR 0x20,
                           CHR 0x85, CHR 0xA0])"

text \<open>\<^verbatim>\<open>int(s)\<close> on a string of ASCII digits, after the leading whitespace that
  \<^verbatim>\<open>int\<close> ignores.\<close>

definition digit_val :: "char \<Rightarrow> nat" where
  "digit_val c = of_char c - 48"

definition int_of_str :: "string \<Rightarrow> nat" where
  "int_of_str s = foldl (\<lambda>a c. 10 * a + digit_val c) 0 (dropWhile is_space s)"

text \<open>\<^verbatim>\<open>str(n)\<close> for a non-negative integer: its decimal digits.\<close>

definition digit_char :: "nat \<Rightarrow> char" where
  "digit_char n = ''0123456789'' ! n"

function str_nat :: "nat \<Rightarrow> string" where
  "str_nat n = (if n < 10 then [digit_char n] else str_nat (n div 10) @ [digit_char (n mod 10)])"
  by pat_completeness auto
termination
  by (relation "measure id") auto

declare str_nat.simps [simp del]

definition startswith :: "string \<Rightarrow> string \<Rightarrow> bool" where
  "startswith s p = (take (length p) s = p)"

text \<open>\<^verbatim>\<open>p in s\<close>: the string \<open>p\<close> occurs in \<open>s\<close> as a contiguous block.\<close>

fun contains :: "string \<Rightarrow> string \<Rightarrow> bool" where
  "contains [] p = (p = [])"
| "contains (c # cs) p = (startswith (c # cs) p \<or> contains cs p)"

text \<open>\<^verbatim>\<open>str.lower\<close> on code points below 256: the ASCII capitals and the capitals of the
  Latin-1 block (all of 0xC0 to 0xDE but the multiplication sign) move up by 32.\<close>

definition lower_char :: "char \<Rightarrow> char" where
  "lower_char c =
     (let n = (of_char c :: nat)
      in if (65 \<le> n \<and> n \<le> 90) \<or> (192 \<le> n \<and> n \<le> 222 \<and> n \<noteq> 215) then char_of (n + 32) else c)"

definition lower :: "string \<Rightarrow> string" where
  "lower s = map lower_char s"

definition strip :: "string \<Rightarrow> string" where
  "strip s = rev (dropWhile is_space (rev (dropWhile is_space s)))"

text \<open>\<^verbatim>\<open>s.replace(p, "")\<close> for a non-empty \<open>p\<close>: the occurrences of \<open>p\<close> are removed from
  left to right, without overlap.\<close>

function remove_all :: "string \<Rightarrow> string \<Rightarrow> string" where
  "remove_all p [] = []"
| "remove_all p (c # cs) =
     (if p \<noteq> [] \<and> startswith (c # cs) p then remove_all p (drop (length p) (c # cs))
      else c # remove_all p cs)"
  by pat_completeness auto
termination
  by (relation "measure (\<lambda>(p, s). length s)") (auto simp: neq_Nil_conv)


section \<open>The regular expressions of the source\<close>

text \<open>
  \<^verbatim>\<open>re.search(r'Q(\d)', text, re.IGNORECASE)\<close>: the leftmost position at which a Q or q is
  followed by a digit; the result is group 1, the digit.
\<close>

fun search_quarter :: "string \<Rightarrow> char option" where
  "search_quarter (q # d # cs) =
     (if q \<in> set ''Qq'' \<and> is_digit d then Some d else search_quarter (d # cs))"
| "search_quarter _ = None"

text \<open>
  \<^verbatim>\<open>re.search(r'FY\s*(\d{2,4})', text, re.IGNORECASE)\<close>. At one position: F, Y, then all the
  whitespace there is, then the digits that follow, four at most and two at least (both
  repetitions are greedy, and giving characters back never helps: a whitespace is no
  digit). The result is group 1, the digits.
\<close>

definition fy_at :: "string \<Rightarrow> string option" where
  "fy_at s =
     (case s of
        f # y # r \<Rightarrow>
          if f \<in> set ''Ff'' \<and> y \<in> set ''Yy''
          then (let ds = takeWhile is_digit (take 4 (dropWhile is_space r))
                in if 2 \<le> length ds then Some ds else None)
          else None
      | _ \<Rightarrow> None)"

fun search_fy :: "string \<Rightarrow> string option" where
  "search_fy [] = None"
| "search_fy (c # cs) =
     (case fy_at (c # cs) of Some ds \<Rightarrow> Some ds | None \<Rightarrow> search_fy cs)"

text \<open>
  \<^verbatim>\<open>re.search(r'(\d{1,2}[-/]\d{1,2}[-/]\d{2,4})', text)\<close>. A greedy run of one or two digits
  must be followed by a separator; when two digits are taken and no separator follows, one
  digit alone is followed by a digit, so backtracking finds nothing more.
\<close>

definition date_at :: "string \<Rightarrow> string option" where
  "date_at s =
     (let d1 = takeWhile is_digit (take 2 s); r1 = drop (length d1) s
      in if d1 = [] then None
         else (case r1 of
                 [] \<Rightarrow> None
               | s1 # r2 \<Rightarrow>
                   if s1 \<notin> set ''-/'' then None
                   else (let d2 = takeWhile is_digit (take 2 r2); r3 = drop (length d2) r2
                         in if d2 = [] then None
                            else (case r3 of
                                    [] \<Rightarrow> None
                                  | s2 # r4 \<Rightarrow>
                                      if s2 \<notin> set ''-/'' then None
                                      else (let d3 = takeWhile is_digit (take 4 r4)
                                            in if 2 \<le> length d3
                                               then Some (d1 @ [s1] @ d2 @ [s2] @ d3)
                                               else None)))))"

fun search_date :: "string \<Rightarrow> string option" where
  "search_date [] = None"
| "search_date (c # cs) =
     (case date_at (c # cs) of Some ds \<Rightarrow> Some ds | None \<Rightarrow> search_date cs)"

text \<open>
  \<^verbatim>\<open>re.split(r'\d|Q\d|FY', text)[0]\<close>: the text before the leftmost digit, Q followed by
  a digit, or FY. This pattern is case-sensitive.
\<close>

fun split_head :: "string \<Rightarrow> string" where
  "split_head [] = []"
| "split_head (c # cs) =
     (if is_digit c
         \<or> (c = CHR ''Q'' \<and> (case cs of [] \<Rightarrow> False | d # _ \<Rightarrow> is_digit d))
         \<or> (c = CHR ''F'' \<and> (case cs of [] \<Rightarrow> False | y # _ \<Rightarrow> y = CHR ''Y''))
      then [] else c # split_head cs)"


section \<open>\<^verbatim>\<open>datetime.strptime\<close>\<close>

text \<open>
  The standard library turns a format into a regular expression, one group for each
  directive, matches it at the start of the data (the first match in backtracking order),
  rejects data that the match leaves unconverted, and then builds the date, which rejects
  a year of 0 and a day the month does not have. Each of these is a \<^verbatim>\<open>ValueError\<close>.
  The groups are: \<^verbatim>\<open>%d\<close> is \<^verbatim>\<open>3[0-1]|[1-2]\d|0[1-9]|[1-9]| [1-9]\<close>, \<^verbatim>\<open>%m\<close> is
  \<^verbatim>\<open>1[0-2]|0[1-9]|[1-9]\<close>, \<^verbatim>\<open>%Y\<close> is \<^verbatim>\<open>\d\d\d\d\<close> and \<^verbatim>\<open>%y\<close> is \<^verbatim>\<open>\d\d\<close>.
\<close>

datatype exn = ValueError | TransportError

record datetime =
  year :: nat
  month :: nat
  day :: nat

datatype directive = Dir_d | Dir_m | Dir_Y | Dir_y | Lit char

definition alt1 :: "string \<Rightarrow> string \<Rightarrow> (string \<times> string) list" where
  "alt1 A s = (case s of a # r \<Rightarrow> if a \<in> set A then [([a], r)] else [] | _ \<Rightarrow> [])"

definition alt2 :: "string \<Rightarrow> string \<Rightarrow> string \<Rightarrow> (string \<times> string) list" where
  "alt2 A B s =
     (case s of a # b # r \<Rightarrow> if a \<in> set A \<and> b \<in> set B then [([a, b], r)] else [] | _ \<Rightarrow> [])"

definition alt4 :: "string \<Rightarrow> string \<Rightarrow> (string \<times> string) list" where
  "alt4 A s =
     (case s of
        a # b # c # d # r \<Rightarrow>
          if a \<in> set A \<and> b \<in> set A \<and> c \<in> set A \<and> d \<in> set A then [([a, b, c, d], r)] else []
      | _ \<Rightarrow> [])"

text \<open>The matches of one directive at the start of \<open>s\<close>, in the order in which the
  regular expression tries its alternatives: the matched text and the rest.\<close>

fun re_directive :: "directive \<Rightarrow> string \<Rightarrow> (string \<times> string) list" where
  "re_directive Dir_d s =
     alt2 ''3'' ''01'' s @ alt2 ''12'' ''0123456789'' s @ alt2 ''0'' ''123456789'' s
       @ alt1 ''123456789'' s @ alt2 '' '' ''123456789'' s"
| "re_directive Dir_m s =
     alt2 ''1'' ''012'' s @ alt2 ''0'' ''123456789'' s @ alt1 ''123456789'' s"
| "re_directive Dir_Y s = alt4 ''0123456789'' s"
| "re_directive Dir_y s = alt2 ''0123456789'' ''0123456789'' s"
| "re_directive (Lit c) s = alt1 [c] s"

text \<open>The matches of a whole format, in backtracking order: the groups and the rest.\<close>

fun re_match :: "directive list \<Rightarrow> string \<Rightarrow> ((directive \<times> string) list \<times> string) list" where
  "re_match [] s = [([], s)]"
| "re_match (d # ds) s =
     concat (map (\<lambda>(m, r). map (\<lambda>(g, r'). ((d, m) # g, r')) (re_match ds r)) (re_directive d s))"

definition is_leap :: "nat \<Rightarrow> bool" where
  "is_leap y = (y mod 4 = 0 \<and> (y mod 100 \<noteq> 0 \<or> y mod 400 = 0))"

definition days_in_month :: "nat \<Rightarrow> nat \<Rightarrow> nat" where
  "days_in_month y m =
     (if m = 2 then (if is_leap y then 29 else 28)
      else if m \<in> {4, 6, 9, 11} then 30 else 31)"

definition group_year :: "(directive \<times> string) list \<Rightarrow> nat" where
  "group_year g =
     (case map_of g Dir_Y of
        Some v \<Rightarrow> int_of_str v
      | None \<Rightarrow>
          (case map_of g Dir_y of
             Some v \<Rightarrow> (let y = int_of_str v in if y \<le> 68 then y + 2000 else y + 1900)
           | None \<Rightarrow> 1900))"

definition group_num :: "(directive \<times> string) list \<Rightarrow> directive \<Rightarrow> nat" where
  "group_num g d = (case map_of g d of Some v \<Rightarrow> int_of_str v | None \<Rightarrow> 1)"

definition strptime :: "string \<Rightarrow> directive list \<Rightarrow> exn + datetime" where
  "strptime data_string fmt =
     (case re_match fmt data_string of
        [] \<Rightarrow> Inl ValueError
      | (g, rest) # _ \<Rightarrow>
          if rest \<noteq> [] then Inl ValueError
          else (let y = group_year g; m = group_num g Dir_m; d = group_num g Dir_d
                in if y < 1 \<or> m < 1 \<or> 12 < m \<or> d < 1 \<or> days_in_month y m < d
                   then Inl ValueError
                   else Inr \<lparr>year = y, month = m, day = d\<rparr>))"


section \<open>Period resolution\<close>

text \<open>The formats of \<^verbatim>\<open>determine_quarter_fy\<close>, in the order of the source:
  \<^verbatim>\<open>"%d-%m-%Y", "%d/%m/%Y", "%Y-%m-%d", "%d-%m-%y", "%d/%m/%y"\<close>.\<close>

definition fmt_dmY_dash :: "directive list" where
  "fmt_dmY_dash = [Dir_d, Lit CHR ''-'', Dir_m, Lit CHR ''-'', Dir_Y]"

definition fmt_dmY_slash :: "directive list" where
  "fmt_dmY_slash = [Dir_d, Lit CHR ''/'', Dir_m, Lit CHR ''/'', Dir_Y]"

definition fmt_Ymd_dash :: "directive list" where
  "fmt_Ymd_dash = [Dir_Y, Lit CHR ''-'', Dir_m, Lit CHR ''-'', Dir_d]"

definition fmt_dmy_dash :: "directive list" where
  "fmt_dmy_dash = [Dir_d, Lit CHR ''-'', Dir_m, Lit CHR ''-'', Dir_y]"

definition fmt_dmy_slash :: "directive list" where
  "fmt_dmy_slash = [Dir_d, Lit CHR ''/'', Dir_m, Lit CHR ''/'', Dir_y]"

definition date_formats :: "directive list list" where
  "date_formats = [fmt_dmY_dash, fmt_dmY_slash, fmt_Ymd_dash, fmt_dmy_dash, fmt_dmy_slash]"

text \<open>The Indian fiscal year runs from April to March. The source writes this mapping
  twice with the same branches, once for the parsed date and once for the current date.\<close>

definition fiscal_period :: "datetime \<Rightarrow> string \<times> string" where
  "fiscal_period dt =
     (if 4 \<le> month dt \<and> month dt \<le> 6 then (''Q1'', ''FY'' @ str_nat (year dt + 1))
      else if 7 \<le> month dt \<and> month dt \<le> 9 then (''Q2'', ''FY'' @ str_nat (year dt + 1))
      else if 10 \<le> month dt \<and> month dt \<le> 12 then (''Q3'', ''FY'' @ str_nat (year dt + 1))
      else (''Q4'', ''FY'' @ str_nat (year dt)))"

text \<open>The loop over the formats: the first format that parses wins, a \<^verbatim>\<open>ValueError\<close>
  moves on to the next format, and any other exception leaves the loop with no date.\<close>

fun try_formats :: "directive list list \<Rightarrow> string \<Rightarrow> datetime option" where
  "try_formats [] s = None"
| "try_formats (f # fs) s =
     (case strptime s f of
        Inr dt \<Rightarrow> Some dt
      | Inl ValueError \<Rightarrow> try_formats fs s
      | Inl _ \<Rightarrow> None)"

definition parse_date :: "string \<Rightarrow> datetime option" where
  "parse_date date_str = (if date_str \<noteq> [] then try_formats date_formats date_str else None)"

text \<open>\<open>now\<close> is the value of \<^verbatim>\<open>datetime.now()\<close> at the call.\<close>

definition determine_quarter_fy :: "datetime \<Rightarrow> string \<Rightarrow> string \<Rightarrow> string \<times> string" where
  "determine_quarter_fy now date_str text =
     (case (search_quarter text, search_fy text) of
        (Some q, Some fy) \<Rightarrow>
          (''Q'' @ [q], ''FY'' @ (if length fy = 2 then ''20'' @ fy else fy))
      | _ \<Rightarrow>
          (case parse_date date_str of
             Some dt \<Rightarrow> fiscal_period dt
           | None \<Rightarrow> fiscal_period now))"


section \<open>Descriptors and their extraction\<close>

text \<open>
  A transcript descriptor is a Python dict; a key that is absent is \<open>None\<close>. The rows of
  the listing carry the keys company, pdf_url, date, quarter, fiscal_year and raw_text; the
  descriptors of a company page carry pdf_url, quarter, fiscal_year and text (here
  \<open>link_text\<close>), and \<^verbatim>\<open>main\<close> adds company.
\<close>

record transcript =
  company :: "string option"
  pdf_url :: "string option"
  date :: "string option"
  quarter :: "string option"
  fiscal_year :: "string option"
  raw_text :: "string option"
  link_text :: "string option"

text \<open>A row of the listing, as \<^verbatim>\<open>parse_transcript_row\<close> reads it: the \<^verbatim>\<open>href\<close> values of
  the anchors that \<^verbatim>\<open>row.find_all("a", href=True)\<close> returns, in document order, and
  \<^verbatim>\<open>row.get_text(strip=True)\<close>.\<close>

record row =
  row_links :: "string list"
  row_text :: "string"

definition site_root :: string where
  "site_root = ''https://www.screener.in''"

definition parse_transcript_row :: "row \<Rightarrow> transcript option" where
  "parse_transcript_row r =
     (case find (\<lambda>href. contains (lower href) ''.pdf'' \<or> contains (lower href) ''transcript'')
             (row_links r) of
        None \<Rightarrow> None
      | Some href \<Rightarrow>
          if href = [] then None
          else
            (let pdf_link =
                   (if startswith href ''/'' then site_root @ href
                    else if \<not> startswith href ''http'' then site_root @ ''/'' @ href
                    else href);
                 txt = row_text r;
                 date_str = (case search_date txt of Some d \<Rightarrow> d | None \<Rightarrow> []);
                 q = (case search_quarter txt of Some d \<Rightarrow> ''Q'' @ [d] | None \<Rightarrow> []);
                 fy = (case search_fy txt of Some ds \<Rightarrow> ''FY'' @ ds | None \<Rightarrow> []);
                 company_name = strip (remove_all ''Transcript'' (strip (split_head txt)))
             in Some \<lparr>company = Some (take 50 company_name), pdf_url = Some pdf_link,
                       date = Some date_str, quarter = Some q, fiscal_year = Some fy,
                       raw_text = Some (take 100 txt), link_text = None\<rparr>))"

text \<open>A company page is read through its anchors, each with its \<^verbatim>\<open>href\<close> and its text.
  The selector \<^verbatim>\<open>a[href*='transcript'], a[href*='.pdf']\<close> compares as written, without
  folding case. A page that fails to load leaves the list empty: the exception is caught.\<close>

definition select_doc_links :: "(string \<times> string) list \<Rightarrow> (string \<times> string) list" where
  "select_doc_links anchors =
     filter (\<lambda>(href, _). contains href ''transcript'' \<or> contains href ''.pdf'') anchors"

definition company_transcript :: "string \<times> string \<Rightarrow> transcript option" where
  "company_transcript link =
     (case link of
        (href, txt) \<Rightarrow>
          if contains (lower href) ''transcript'' \<or> contains (lower txt) ''transcript''
          then
            (let href' =
                   (if \<not> startswith href ''http''
                    then (if startswith href ''/'' then site_root @ href else href)
                    else href)
             in Some \<lparr>company = None, pdf_url = Some href', date = None,
                       quarter = Some (case search_quarter txt of
                                         Some d \<Rightarrow> ''Q'' @ [d] | None \<Rightarrow> ''Unknown''),
                       fiscal_year = Some (case search_fy txt of
                                             Some ds \<Rightarrow> ''FY'' @ ds | None \<Rightarrow> ''Unknown''),
                       raw_text = None, link_text = Some txt\<rparr>)
          else None)"

definition get_company_transcripts :: "exn + (string \<times> string) list \<Rightarrow> transcript list" where
  "get_company_transcripts page =
     (case page of
        Inl _ \<Rightarrow> []
      | Inr anchors \<Rightarrow> List.map_filter company_transcript (select_doc_links anchors))"


section \<open>The listing crawlers\<close>

text \<open>
  The site answers the request for page \<open>n\<close> of a listing with a page or with an exception of
  the browser; each page number is requested at most once in a crawl, so a function of the
  page number covers every behaviour of the site. Of a page of the transcript listing the
  crawler reads the rows of the first selector, the anchors of the fallback selector, and
  whether \<^verbatim>\<open>a.next, a[rel='next']\<close> selects anything. The crawlers return their result
  together with the page numbers they requested, in order.
\<close>

record listing_page =
  table_rows :: "row list"
  doc_anchors :: "row list"
  next_link :: bool

definition page_rows :: "listing_page \<Rightarrow> row list" where
  "page_rows pg = (if table_rows pg \<noteq> [] then table_rows pg else doc_anchors pg)"

function scrape_loop ::
  "(nat \<Rightarrow> exn + listing_page) \<Rightarrow> nat \<Rightarrow> transcript list \<Rightarrow> nat list
     \<Rightarrow> (exn + transcript list) \<times> nat list" where
  "scrape_loop site page transcripts fetched =
     (case site page of
        Inl e \<Rightarrow> (Inl e, fetched @ [page])
      | Inr pg \<Rightarrow>
          if page_rows pg = [] then (Inr transcripts, fetched @ [page])
          else
            (let transcripts' = transcripts @ List.map_filter parse_transcript_row (page_rows pg)
             in if \<not> next_link pg then (Inr transcripts', fetched @ [page])
                else if page + 1 > 200 then (Inr transcripts', fetched @ [page])
                else scrape_loop site (page + 1) transcripts' (fetched @ [page])))"
  by pat_completeness auto
termination
  by (relation "measure (\<lambda>(site, page, transcripts, fetched). 201 - page)") auto

declare scrape_loop.simps [simp del]

definition scrape_transcripts_page ::
  "(nat \<Rightarrow> exn + listing_page) \<Rightarrow> (exn + transcript list) \<times> nat list" where
  "scrape_transcripts_page site = scrape_loop site 1 [] []"

text \<open>Of a page of the company listing the crawler reads the anchors that
  \<^verbatim>\<open>a[href*='/company/']\<close> selects, each with its \<^verbatim>\<open>href\<close> and its text, and whether the
  next-page selector selects anything.\<close>

record company =
  name :: string
  url :: string

record company_page =
  company_links :: "(string \<times> string) list"
  next_button :: bool

definition company_of_link :: "string \<times> string \<Rightarrow> company option" where
  "company_of_link link =
     (case link of
        (href, nm) \<Rightarrow>
          if contains href ''/company/'' \<and> nm \<noteq> []
          then Some \<lparr>name = nm, url = (if startswith href ''/'' then site_root @ href else href)\<rparr>
          else None)"

function companies_loop ::
  "(nat \<Rightarrow> exn + company_page) \<Rightarrow> nat \<Rightarrow> company list \<Rightarrow> nat list
     \<Rightarrow> (exn + company list) \<times> nat list" where
  "companies_loop site page companies fetched =
     (case site page of
        Inl e \<Rightarrow> (Inl e, fetched @ [page])
      | Inr pg \<Rightarrow>
          if company_links pg = [] then (Inr companies, fetched @ [page])
          else
            (let companies' = companies @ List.map_filter company_of_link (company_links pg)
             in if \<not> next_button pg \<and> page > 50 then (Inr companies', fetched @ [page])
                else if page + 1 > 100 then (Inr companies', fetched @ [page])
                else companies_loop site (page + 1) companies' (fetched @ [page])))"
  by pat_completeness auto
termination
  by (relation "measure (\<lambda>(site, page, companies, fetched). 101 - page)") auto

declare companies_loop.simps [simp del]

text \<open>The first company of each URL is kept.\<close>

fun unique_companies :: "string list \<Rightarrow> company list \<Rightarrow> company list" where
  "unique_companies seen [] = []"
| "unique_companies seen (c # cs) =
     (if url c \<notin> set seen then c # unique_companies (url c # seen) cs
      else unique_companies seen cs)"

definition get_all_companies ::
  "(nat \<Rightarrow> exn + company_page) \<Rightarrow> (exn + company list) \<times> nat list" where
  "get_all_companies site =
     (case companies_loop site 1 [] [] of
        (Inl e, fetched) \<Rightarrow> (Inl e, fetched)
      | (Inr companies, fetched) \<Rightarrow> (Inr (unique_companies [] companies), fetched))"


section \<open>The remote store\<close>

text \<open>
  The store is the list of its entries in the order of their creation; identifiers are
  numbers, and the store gives a new entry an identifier that no entry has. A query lists
  the entries that match a name and a parent (and, for folders, the folder type) by exact
  comparison, in the order of creation; trashed entries are not modelled. Each call of the
  store may raise: the first argument of an operation says whether it does, and with which
  exception. A call that raises leaves the store as it was.
\<close>

record entry =
  eid :: nat
  ename :: string
  eparent :: nat
  is_folder :: bool

type_synonym drive = "entry list"

definition DRIVE_FOLDER_ID :: nat where
  "DRIVE_FOLDER_ID = 0"

definition fresh_id :: "drive \<Rightarrow> nat" where
  "fresh_id d = Suc (fold max (map eid d) DRIVE_FOLDER_ID)"

definition folder_query :: "string \<Rightarrow> nat \<Rightarrow> entry \<Rightarrow> bool" where
  "folder_query folder_name parent_id e =
     (ename e = folder_name \<and> is_folder e \<and> eparent e = parent_id)"

definition file_query :: "string \<Rightarrow> nat \<Rightarrow> entry \<Rightarrow> bool" where
  "file_query filename folder_id e = (ename e = filename \<and> eparent e = folder_id)"

definition get_or_create_folder ::
  "exn option \<Rightarrow> exn option \<Rightarrow> drive \<Rightarrow> string \<Rightarrow> nat \<Rightarrow> (exn + nat) \<times> drive" where
  "get_or_create_folder list_raises create_raises d folder_name parent_id =
     (case list_raises of
        Some e \<Rightarrow> (Inl e, d)
      | None \<Rightarrow>
          (case filter (folder_query folder_name parent_id) d of
             f # _ \<Rightarrow> (Inr (eid f), d)
           | [] \<Rightarrow>
               (case create_raises of
                  Some e \<Rightarrow> (Inl e, d)
                | None \<Rightarrow>
                    (Inr (fresh_id d),
                     d @ [\<lparr>eid = fresh_id d, ename = folder_name, eparent = parent_id,
                            is_folder = True\<rparr>]))))"

definition file_exists_in_drive :: "exn option \<Rightarrow> drive \<Rightarrow> string \<Rightarrow> nat \<Rightarrow> exn + bool" where
  "file_exists_in_drive list_raises d filename folder_id =
     (case list_raises of
        Some e \<Rightarrow> Inl e
      | None \<Rightarrow> Inr (0 < length (filter (file_query filename folder_id) d)))"

text \<open>The content of a file is not part of the model: no property here reads it.\<close>

definition upload_to_drive ::
  "exn option \<Rightarrow> exn option \<Rightarrow> drive \<Rightarrow> string \<Rightarrow> nat \<Rightarrow> (exn + nat option) \<times> drive" where
  "upload_to_drive list_raises create_raises d filename folder_id =
     (case file_exists_in_drive list_raises d filename folder_id of
        Inl e \<Rightarrow> (Inl e, d)
      | Inr True \<Rightarrow> (Inr None, d)
      | Inr False \<Rightarrow>
          (case create_raises of
             Some e \<Rightarrow> (Inl e, d)
           | None \<Rightarrow>
               (Inr (Some (fresh_id d)),
                d @ [\<lparr>eid = fresh_id d, ename = filename, eparent = folder_id,
                       is_folder = False\<rparr>])))"


section \<open>The fetch-and-store pipeline\<close>

text \<open>
  What the world does while one descriptor is processed: the value of the clock, and for
  each call of a collaborator whether it raises. Each of these calls is made at most once
  for a descriptor, so this covers every way in which the calls can fail.
\<close>

datatype call =
  ListFY | CreateFY | ListQ | CreateQ | FileExists | Download | UploadExists | UploadCreate

record env =
  clock :: datetime
  fault :: "call \<Rightarrow> exn option"

datatype outcome = NoUrl | Skipped | Downloaded

record stats =
  downloaded :: nat
  skipped :: nat
  failed :: nat

text \<open>The quarter and the fiscal year of a descriptor: the resolved period, overridden by
  each hint of the descriptor that is neither empty nor "Unknown".\<close>

definition resolve_period :: "datetime \<Rightarrow> transcript \<Rightarrow> string \<times> string" where
  "resolve_period now t =
     (case determine_quarter_fy now
             (case date t of Some d \<Rightarrow> d | None \<Rightarrow> [])
             (let r = (case raw_text t of Some x \<Rightarrow> x | None \<Rightarrow> [])
              in if r \<noteq> [] then r else (case link_text t of Some x \<Rightarrow> x | None \<Rightarrow> [])) of
        (q, fy) \<Rightarrow>
          ((case quarter t of
              Some h \<Rightarrow> if h \<noteq> [] \<and> h \<noteq> ''Unknown'' then h else q
            | None \<Rightarrow> q),
           (case fiscal_year t of
              Some h \<Rightarrow> if h \<noteq> [] \<and> h \<noteq> ''Unknown'' then h else fy
            | None \<Rightarrow> fy)))"

text \<open>\<^verbatim>\<open>re.sub(r'[<>:"/\\|?*]', '', company)\<close>.\<close>

definition safe_company :: "string \<Rightarrow> string" where
  "safe_company c =
     filter (\<lambda>x. x \<notin> set [CHR ''<'', CHR ''>'', CHR '':'', CHR 0x22, CHR ''/'', CHR 0x5C,
                            CHR ''|'', CHR ''?'', CHR ''*'']) c"

definition transcript_filename :: "transcript \<Rightarrow> string \<Rightarrow> string \<Rightarrow> string" where
  "transcript_filename t fy q =
     safe_company (case company t of Some c \<Rightarrow> c | None \<Rightarrow> ''Unknown'')
       @ '' - '' @ fy @ '' '' @ q @ '' Transcript.pdf''"

text \<open>The body of the loop, inside its \<^verbatim>\<open>try\<close>: the result is the exception that left it,
  or how the descriptor ended, with the store as the body left it.\<close>

definition process_transcript :: "env \<Rightarrow> transcript \<Rightarrow> drive \<Rightarrow> (exn + outcome) \<times> drive" where
  "process_transcript w t d =
     (if pdf_url t = None \<or> pdf_url t = Some [] then (Inr NoUrl, d)
      else
        (case resolve_period (clock w) t of
           (q, fy) \<Rightarrow>
             (case get_or_create_folder (fault w ListFY) (fault w CreateFY) d fy DRIVE_FOLDER_ID of
                (Inl e, d1) \<Rightarrow> (Inl e, d1)
              | (Inr fy_folder_id, d1) \<Rightarrow>
                  (case get_or_create_folder (fault w ListQ) (fault w CreateQ) d1 q fy_folder_id of
                     (Inl e, d2) \<Rightarrow> (Inl e, d2)
                   | (Inr quarter_folder_id, d2) \<Rightarrow>
                       (case file_exists_in_drive (fault w FileExists) d2
                               (transcript_filename t fy q) quarter_folder_id of
                          Inl e \<Rightarrow> (Inl e, d2)
                        | Inr True \<Rightarrow> (Inr Skipped, d2)
                        | Inr False \<Rightarrow>
                            (case fault w Download of
                               Some e \<Rightarrow> (Inl e, d2)
                             | None \<Rightarrow>
                                 (case upload_to_drive (fault w UploadExists) (fault w UploadCreate)
                                         d2 (transcript_filename t fy q) quarter_folder_id of
                                    (Inl e, d3) \<Rightarrow> (Inl e, d3)
                                  | (Inr _, d3) \<Rightarrow> (Inr Downloaded, d3))))))))"

text \<open>The \<^verbatim>\<open>except\<close> clause and the counters.\<close>

fun tally :: "exn + outcome \<Rightarrow> stats \<Rightarrow> stats" where
  "tally (Inl e) st = st\<lparr>failed := failed st + 1\<rparr>"
| "tally (Inr NoUrl) st = st"
| "tally (Inr Skipped) st = st\<lparr>skipped := skipped st + 1\<rparr>"
| "tally (Inr Downloaded) st = st\<lparr>downloaded := downloaded st + 1\<rparr>"

text \<open>The loop over the descriptors; \<open>i\<close> is the number of the descriptor, which selects
  what the world does while it is processed.\<close>

fun run_transcripts ::
  "(nat \<Rightarrow> env) \<Rightarrow> nat \<Rightarrow> transcript list \<Rightarrow> stats \<Rightarrow> drive \<Rightarrow> stats \<times> drive" where
  "run_transcripts world i [] st d = (st, d)"
| "run_transcripts world i (t # ts) st d =
     (case process_transcript (world i) t d of
        (r, d') \<Rightarrow> run_transcripts world (Suc i) ts (tally r st) d')"

definition download_and_upload_transcripts ::
  "(nat \<Rightarrow> env) \<Rightarrow> transcript list \<Rightarrow> drive \<Rightarrow> stats \<times> drive" where
  "download_and_upload_transcripts world transcripts d =
     run_transcripts world 1 transcripts \<lparr>downloaded = 0, skipped = 0, failed = 0\<rparr> d"

text \<open>How each descriptor of a run ended, in input order: the same loop, keeping the
  results instead of counting them.\<close>

fun run_results :: "(nat \<Rightarrow> env) \<Rightarrow> nat \<Rightarrow> transcript list \<Rightarrow> drive \<Rightarrow> (exn + outcome) list" where
  "run_results world i [] d = []"
| "run_results world i (t # ts) d =
     (case process_transcript (world i) t d of
        (r, d') \<Rightarrow> r # run_results world (Suc i) ts d')"


section \<open>Markers in a text, stated without the search functions\<close>

text \<open>A quarter marker at the start of \<open>s\<close> is a Q or q followed by the digit \<open>d\<close>; a
  fiscal-year marker is F, Y (in either case), whitespace, and two to four digits \<open>ds\<close>. The
  longest marker takes every digit that follows, up to four.\<close>

definition quarter_here :: "string \<Rightarrow> char \<Rightarrow> bool" where
  "quarter_here s d = (\<exists>q r. s = q # d # r \<and> q \<in> set ''Qq'' \<and> is_digit d)"

definition fy_here :: "string \<Rightarrow> string \<Rightarrow> bool" where
  "fy_here s ds =
     (\<exists>f y ws r. s = f # y # ws @ ds @ r \<and> f \<in> set ''Ff'' \<and> y \<in> set ''Yy''
        \<and> list_all is_space ws \<and> list_all is_digit ds \<and> 2 \<le> length ds \<and> length ds \<le> 4)"

definition fy_longest :: "string \<Rightarrow> string \<Rightarrow> bool" where
  "fy_longest s ds =
     (\<exists>f y ws r. s = f # y # ws @ ds @ r \<and> f \<in> set ''Ff'' \<and> y \<in> set ''Yy''
        \<and> list_all is_space ws \<and> list_all is_digit ds \<and> 2 \<le> length ds \<and> length ds \<le> 4
        \<and> (length ds = 4 \<or> (case r of [] \<Rightarrow> True | c # _ \<Rightarrow> \<not> is_digit c)))"

definition has_quarter_marker :: "string \<Rightarrow> bool" where
  "has_quarter_marker text = (\<exists>pre s d. text = pre @ s \<and> quarter_here s d)"

definition has_fy_marker :: "string \<Rightarrow> bool" where
  "has_fy_marker text = (\<exists>pre s ds. text = pre @ s \<and> fy_here s ds)"

definition leftmost_quarter :: "string \<Rightarrow> char \<Rightarrow> bool" where
  "leftmost_quarter text d =
     (\<exists>pre s. text = pre @ s \<and> quarter_here s d
        \<and> (\<forall>p t d'. text = p @ t \<and> length p < length pre \<longrightarrow> \<not> quarter_here t d'))"

definition leftmost_fy :: "string \<Rightarrow> string \<Rightarrow> bool" where
  "leftmost_fy text ds =
     (\<exists>pre s. text = pre @ s \<and> fy_longest s ds
        \<and> (\<forall>p t ds'. text = p @ t \<and> length p < length pre \<longrightarrow> \<not> fy_here t ds'))"


section \<open>Dates written with a two-digit year\<close>

text \<open>Day, month and a two-digit year, each part a run of digits, with the same separator
  twice. \<open>expand_year\<close> is the century rule of \<^verbatim>\<open>%y\<close>.\<close>

definition two_digit_year_date :: "string \<Rightarrow> bool" where
  "two_digit_year_date s =
     (\<exists>D M sep y1 y2. s = D @ [sep] @ M @ [sep] @ [y1, y2] \<and> sep \<in> set ''-/''
        \<and> D \<noteq> [] \<and> length D \<le> 2 \<and> list_all is_digit D
        \<and> M \<noteq> [] \<and> length M \<le> 2 \<and> list_all is_digit M
        \<and> is_digit y1 \<and> is_digit y2)"

definition expand_year :: "nat \<Rightarrow> nat" where
  "expand_year yy = (if yy \<le> 68 then yy + 2000 else yy + 1900)"


text \<open>The last two characters of a date string.\<close>

definition year_digits :: "string \<Rightarrow> string" where
  "year_digits s = drop (length s - 2) s"


section \<open>Listings for the crawler properties\<close>

text \<open>A listing whose every page has a row and a next-page link, a listing whose every page
  has a row and no next-page link, and a company listing that never ends.\<close>

definition endless_listing :: "nat \<Rightarrow> exn + listing_page" where
  "endless_listing p =
     Inr \<lparr>table_rows = [\<lparr>row_links = [''/docs/a.pdf''], row_text = ''Acme Q1 FY2024''\<rparr>],
          doc_anchors = [], next_link = True\<rparr>"

definition unlinked_listing :: "nat \<Rightarrow> exn + listing_page" where
  "unlinked_listing p =
     Inr \<lparr>table_rows = [\<lparr>row_links = [''/docs/a.pdf''], row_text = ''Acme Q1 FY2024''\<rparr>],
          doc_anchors = [], next_link = False\<rparr>"

definition endless_companies :: "nat \<Rightarrow> exn + company_page" where
  "endless_companies p = Inr \<lparr>company_links = [(''/company/ACME/'', ''Acme'')], next_button = True\<rparr>"

text \<open>The conditions under which each crawler goes on after page \<open>p\<close>, read off the
  site: the page loaded, it has rows, and it has a next-page link (for the company listing,
  a page up to 50 goes on without the link).\<close>

definition scrape_continues :: "(nat \<Rightarrow> exn + listing_page) \<Rightarrow> nat \<Rightarrow> bool" where
  "scrape_continues site p =
     (case site p of Inl _ \<Rightarrow> False | Inr pg \<Rightarrow> page_rows pg \<noteq> [] \<and> next_link pg)"

definition companies_continues :: "(nat \<Rightarrow> exn + company_page) \<Rightarrow> nat \<Rightarrow> bool" where
  "companies_continues site p =
     (case site p of Inl _ \<Rightarrow> False | Inr pg \<Rightarrow> company_links pg \<noteq> [] \<and> (next_button pg \<or> p \<le> 50))"


section \<open>A descriptor and a world for the pipeline properties\<close>

text \<open>The row of the listing with the text "Acme Corp Q2 FY24 Transcript 15-07-2024", the
  descriptor extracted from it, a value of the clock, and a world in which the download of
  the first descriptor fails and nothing else does.\<close>

definition acme_row :: row where
  "acme_row = \<lparr>row_links = [''/docs/acme.pdf''],
               row_text = ''Acme Corp Q2 FY24 Transcript 15-07-2024''\<rparr>"

definition a_clock :: datetime where
  "a_clock = \<lparr>year = 2026, month = 11, day = 4\<rparr>"

definition download_fails :: "nat \<Rightarrow> env" where
  "download_fails i =
     \<lparr>clock = a_clock, fault = (\<lambda>c. if c = Download \<and> i = 1 then Some TransportError else None)\<rparr>"

definition acme_transcript :: transcript where
  "acme_transcript =
     \<lparr>company = Some ''Acme Corp'', pdf_url = Some ''https://www.screener.in/docs/acme.pdf'',
      date = Some ''15-07-2024'', quarter = Some ''Q2'', fiscal_year = Some ''FY24'',
      raw_text = Some ''Acme Corp Q2 FY24 Transcript 15-07-2024'', link_text = None\<rparr>"


text \<open>A world with that clock in which no call raises.\<close>

definition calm_world :: "nat \<Rightarrow> env" where
  "calm_world i = \<lparr>clock = a_clock, fault = (\<lambda>c. None)\<rparr>"


section \<open>What a run leaves in the store\<close>

text \<open>The folder that a lookup by name and parent returns (the first match); a descriptor
  that has a URL; a descriptor whose file is in the store under the folders of its period;
  a world in which no call raises; two worlds whose clocks lie in the same fiscal period for
  each descriptor; a store in which no folder name occurs twice under one parent.\<close>

definition lookup_folder :: "drive \<Rightarrow> string \<Rightarrow> nat \<Rightarrow> nat option" where
  "lookup_folder d folder_name parent_id =
     (case filter (folder_query folder_name parent_id) d of [] \<Rightarrow> None | f # _ \<Rightarrow> Some (eid f))"

definition has_url :: "transcript \<Rightarrow> bool" where
  "has_url t = (pdf_url t \<noteq> None \<and> pdf_url t \<noteq> Some [])"

definition stored :: "transcript \<Rightarrow> string \<times> string \<Rightarrow> drive \<Rightarrow> bool" where
  "stored t period d =
     (case period of
        (q, fy) \<Rightarrow>
          (case lookup_folder d fy DRIVE_FOLDER_ID of
             None \<Rightarrow> False
           | Some fy_folder_id \<Rightarrow>
               (case lookup_folder d q fy_folder_id of
                  None \<Rightarrow> False
                | Some quarter_folder_id \<Rightarrow>
                    filter (file_query (transcript_filename t fy q) quarter_folder_id) d \<noteq> [])))"

definition no_faults :: "(nat \<Rightarrow> env) \<Rightarrow> bool" where
  "no_faults world = (\<forall>i c. fault (world i) c = None)"

definition same_periods :: "(nat \<Rightarrow> env) \<Rightarrow> (nat \<Rightarrow> env) \<Rightarrow> bool" where
  "same_periods w1 w2 = (\<forall>i. fiscal_period (clock (w2 i)) = fiscal_period (clock (w1 i)))"

definition no_duplicate_folders :: "drive \<Rightarrow> bool" where
  "no_duplicate_folders d = (\<forall>n p. length (filter (folder_query n p) d) \<le> 1)"

text \<open>A descriptor of a company page whose text carries no period, a world whose clock
  stands on 31 March 2025 and one whose clock stands on 1 April 2025, and the store that the
  first leaves for this descriptor.\<close>

definition untagged_transcript :: transcript where
  "untagged_transcript =
     \<lparr>company = Some ''Acme'', pdf_url = Some ''https://www.screener.in/docs/transcript.pdf'',
      date = None, quarter = Some ''Unknown'', fiscal_year = Some ''Unknown'',
      raw_text = None, link_text = Some ''Concall Transcript''\<rparr>"

definition world_march :: "nat \<Rightarrow> env" where
  "world_march i = \<lparr>clock = \<lparr>year = 2025, month = 3, day = 31\<rparr>, fault = (\<lambda>c. None)\<rparr>"

definition world_april :: "nat \<Rightarrow> env" where
  "world_april i = \<lparr>clock = \<lparr>year = 2025, month = 4, day = 1\<rparr>, fault = (\<lambda>c. None)\<rparr>"

definition store_after_march :: drive where
  "store_after_march =
     [\<lparr>eid = 1, ename = ''FY2025'', eparent = 0, is_folder = True\<rparr>,
      \<lparr>eid = 2, ename = ''Q4'', eparent = 1, is_folder = True\<rparr>,
      \<lparr>eid = 3, ename = ''Acme - FY2025 Q4 Transcript.pdf'', eparent = 2, is_folder = False\<rparr>]"


section \<open>The calls of the loop body, in order\<close>

text \<open>
  What the body of the loop does for a descriptor with a URL, stated from the store alone:
  the store once a folder of a name is there under a parent (a missing folder is created
  with a new identifier), the identifier of that folder, the store and the identifier once
  both folders of a period are there, and whether the file of the descriptor is in the
  quarter folder. \<open>calls_made\<close> is the sequence of collaborator calls that the body makes
  when none of them raises: a creation follows a listing only where the folder is missing,
  and the download and the two calls of the upload follow only where the file is missing.
  \<open>store_before\<close> is the store at the moment of a call: what the earlier calls have
  written is in it. \<open>first_fault\<close> is the first call of a sequence that raises, with its
  exception.
\<close>

definition store_with_folder :: "drive \<Rightarrow> string \<Rightarrow> nat \<Rightarrow> drive" where
  "store_with_folder d folder_name parent_id =
     (if lookup_folder d folder_name parent_id = None
      then d @ [\<lparr>eid = fresh_id d, ename = folder_name, eparent = parent_id, is_folder = True\<rparr>]
      else d)"

definition folder_id :: "drive \<Rightarrow> string \<Rightarrow> nat \<Rightarrow> nat" where
  "folder_id d folder_name parent_id =
     (case lookup_folder d folder_name parent_id of Some i \<Rightarrow> i | None \<Rightarrow> fresh_id d)"

definition quarter_store :: "string \<times> string \<Rightarrow> drive \<Rightarrow> drive" where
  "quarter_store period d =
     (case period of
        (q, fy) \<Rightarrow>
          store_with_folder (store_with_folder d fy DRIVE_FOLDER_ID) q
            (folder_id d fy DRIVE_FOLDER_ID))"

definition quarter_id :: "string \<times> string \<Rightarrow> drive \<Rightarrow> nat" where
  "quarter_id period d =
     (case period of
        (q, fy) \<Rightarrow>
          folder_id (store_with_folder d fy DRIVE_FOLDER_ID) q (folder_id d fy DRIVE_FOLDER_ID))"

definition file_present :: "transcript \<Rightarrow> string \<times> string \<Rightarrow> drive \<Rightarrow> bool" where
  "file_present t period d =
     (case period of
        (q, fy) \<Rightarrow>
          filter (file_query (transcript_filename t fy q) (quarter_id period d))
            (quarter_store period d) \<noteq> [])"

definition calls_made :: "transcript \<Rightarrow> string \<times> string \<Rightarrow> drive \<Rightarrow> call list" where
  "calls_made t period d =
     (case period of
        (q, fy) \<Rightarrow>
          [ListFY]
          @ (if lookup_folder d fy DRIVE_FOLDER_ID = None then [CreateFY] else [])
          @ [ListQ]
          @ (if lookup_folder (store_with_folder d fy DRIVE_FOLDER_ID) q
                  (folder_id d fy DRIVE_FOLDER_ID) = None
             then [CreateQ] else [])
          @ [FileExists]
          @ (if file_present t period d then [] else [Download, UploadExists, UploadCreate]))"

definition store_before :: "call \<Rightarrow> string \<times> string \<Rightarrow> drive \<Rightarrow> drive" where
  "store_before c period d =
     (if c = ListFY \<or> c = CreateFY then d
      else if c = ListQ \<or> c = CreateQ then store_with_folder d (snd period) DRIVE_FOLDER_ID
      else quarter_store period d)"

definition first_fault :: "env \<Rightarrow> call list \<Rightarrow> (call \<times> exn) option" where
  "first_fault w cs =
     (case List.map_filter (\<lambda>c. map_option (Pair c) (fault w c)) cs of
        [] \<Rightarrow> None | x # _ \<Rightarrow> Some x)"

definition file_calls :: "bool \<Rightarrow> call list" where
  "file_calls present = FileExists # (if present then [] else [Download, UploadExists, UploadCreate])"


section \<open>Properties of the text primitives and of the searches\<close>

lemma digit_not_space: "is_digit c \<Longrightarrow> \<not> is_space c"
  by (auto simp: is_digit_def is_space_def)

lemma search_quarter_tl: "search_quarter (c # cs) = None \<Longrightarrow> search_quarter cs = None"
  by (cases cs) (auto split: if_splits)

lemma search_quarter_drop: "search_quarter (p @ t) = None \<Longrightarrow> search_quarter t = None"
  by (induction p) (auto dest: search_quarter_tl)

lemma search_quarter_None: "search_quarter text = None \<Longrightarrow> text = p @ t \<Longrightarrow> \<not> quarter_here t d"
  using search_quarter_drop[of p t] by (auto simp: quarter_here_def)

lemma search_quarter_Some: "search_quarter text = Some d \<Longrightarrow> leftmost_quarter text d"
proof (induction "text" rule: search_quarter.induct)
  case (1 q d' cs)
  show ?case
  proof (cases "q \<in> set ''Qq'' \<and> is_digit d'")
    case True
    with 1 have "d' = d" by simp
    with True have "quarter_here (q # d' # cs) d" by (auto simp: quarter_here_def)
    then show ?thesis unfolding leftmost_quarter_def
      by (intro exI[of _ "[]"] exI[of _ "q # d' # cs"]) simp
  next
    case False
    with 1 have "leftmost_quarter (d' # cs) d" by (auto split: if_splits)
    then obtain pre s where ps: "d' # cs = pre @ s" "quarter_here s d"
      and nb: "\<And>p t d'a. d' # cs = p @ t \<Longrightarrow> length p < length pre \<Longrightarrow> \<not> quarter_here t d'a"
      unfolding leftmost_quarter_def by blast
    have "\<not> quarter_here t d'a" if "q # d' # cs = p @ t" "length p < length (q # pre)" for p t d'a
    proof (cases p)
      case Nil
      with that False show ?thesis by (auto simp: quarter_here_def)
    next
      case (Cons a p')
      with that nb[of p' t] show ?thesis by auto
    qed
    with ps show ?thesis unfolding leftmost_quarter_def
      by (intro exI[of _ "q # pre"] exI[of _ s]) auto
  qed
qed simp_all

lemma has_quarter_marker_search: "has_quarter_marker text \<Longrightarrow> \<exists>d. search_quarter text = Some d"
  unfolding has_quarter_marker_def using search_quarter_None
  by (metis not_Some_eq)


lemma fy_at_Some: "fy_at s = Some ds \<Longrightarrow> fy_longest s ds"
proof -
  assume a: "fy_at s = Some ds"
  then obtain f y r where s: "s = f # y # r" and fy: "f \<in> set ''Ff''" "y \<in> set ''Yy''"
    by (auto simp: fy_at_def split: list.splits if_splits)
  define ws where "ws = takeWhile is_space r"
  define r1 where "r1 = dropWhile is_space r"
  from a s fy have ds: "ds = takeWhile is_digit (take 4 r1)" and len: "2 \<le> length ds"
    by (auto simp: fy_at_def r1_def Let_def split: if_splits)
  define r2 where "r2 = drop (length ds) r1"
  have pre: "take (length ds) r1 = ds"
    unfolding ds by (metis append_take_drop_id length_takeWhile_le take_all take_take min.absorb1
        takeWhile_dropWhile_id length_take min.cobounded1 append_eq_conv_conj)
  have r1: "r1 = ds @ r2" unfolding r2_def using pre by (metis append_take_drop_id)
  have "r = ws @ ds @ r2" unfolding ws_def using r1 r1_def by (metis takeWhile_dropWhile_id)
  moreover have "list_all is_space ws" unfolding ws_def list_all_iff by (auto dest: set_takeWhileD)
  moreover have "list_all is_digit ds" unfolding ds list_all_iff by (auto dest: set_takeWhileD)
  moreover have "length ds \<le> 4" unfolding ds
    by (rule order_trans[OF length_takeWhile_le]) simp
  moreover have "length ds = 4 \<or> (case r2 of [] \<Rightarrow> True | c # _ \<Rightarrow> \<not> is_digit c)"
  proof (cases r2)
    case Nil
    then show ?thesis by simp
  next
    case (Cons c r3)
    show ?thesis
    proof (cases "length ds = 4")
      case False
      with \<open>length ds \<le> 4\<close> have lt: "length ds < 4" by simp
      have "take 4 r1 = ds @ take (4 - length ds) (c # r3)"
        using r1 Cons \<open>length ds \<le> 4\<close> by simp
      moreover from lt obtain k where "4 - length ds = Suc k" by (cases "4 - length ds") auto
      ultimately have "take 4 r1 = ds @ c # take k r3" by simp
      with ds have "ds = takeWhile is_digit (ds @ c # take k r3)" by simp
      then have "\<not> is_digit c"
        using \<open>list_all is_digit ds\<close>
        by (auto simp: takeWhile_append2 list_all_iff split: if_splits)
      with Cons show ?thesis by simp
    qed simp
  qed
  ultimately show ?thesis unfolding fy_longest_def using s fy len by blast
qed

lemma fy_here_fy_at: "fy_here s ds \<Longrightarrow> \<exists>ds'. fy_at s = Some ds'"
proof -
  assume "fy_here s ds"
  then obtain f y ws r where s: "s = f # y # ws @ ds @ r" and fy: "f \<in> set ''Ff''" "y \<in> set ''Yy''"
    and ws: "list_all is_space ws" and dg: "list_all is_digit ds" and len: "2 \<le> length ds" "length ds \<le> 4"
    unfolding fy_here_def by blast
  from len obtain d0 ds0 where d0: "ds = d0 # ds0" by (cases ds) auto
  with dg have "\<not> is_space d0" by (simp add: digit_not_space)
  with ws d0 have dw: "dropWhile is_space (ws @ ds @ r) = ds @ r"
    by (simp add: dropWhile_append list_all_iff)
  have "take 4 (ds @ r) = ds @ take (4 - length ds) r" using len by simp
  then have "takeWhile is_digit (take 4 (ds @ r)) = ds @ takeWhile is_digit (take (4 - length ds) r)"
    using dg by (simp add: takeWhile_append2 list_all_iff)
  then have "2 \<le> length (takeWhile is_digit (take 4 (ds @ r)))" using len by simp
  with s fy dw show ?thesis by (simp add: fy_at_def Let_def)
qed

lemma fy_longest_here: "fy_longest s ds \<Longrightarrow> fy_here s ds"
  unfolding fy_longest_def fy_here_def by blast

lemma search_fy_drop: "search_fy (p @ t) = None \<Longrightarrow> search_fy t = None"
  by (induction p) (auto split: option.splits)

lemma search_fy_None_at: "search_fy t = None \<Longrightarrow> fy_at t = None"
  by (cases t) (auto simp: fy_at_def split: option.splits)

lemma search_fy_None: "search_fy text = None \<Longrightarrow> text = p @ t \<Longrightarrow> \<not> fy_here t ds"
  using search_fy_drop[of p t] search_fy_None_at[of t] fy_here_fy_at[of t ds] by auto

lemma search_fy_Some: "search_fy text = Some ds \<Longrightarrow> leftmost_fy text ds"
proof (induction "text")
  case Nil
  then show ?case by simp
next
  case (Cons c cs)
  show ?case
  proof (cases "fy_at (c # cs)")
    case (Some ds')
    with Cons.prems have "ds' = ds" by simp
    with Some have "fy_longest (c # cs) ds" by (simp add: fy_at_Some)
    then show ?thesis unfolding leftmost_fy_def
      by (intro exI[of _ "[]"] exI[of _ "c # cs"]) simp
  next
    case None
    with Cons have "leftmost_fy cs ds" by simp
    then obtain pre s where ps: "cs = pre @ s" "fy_longest s ds"
      and nb: "\<And>p t ds'. cs = p @ t \<Longrightarrow> length p < length pre \<Longrightarrow> \<not> fy_here t ds'"
      unfolding leftmost_fy_def by blast
    have "\<not> fy_here t ds'" if "c # cs = p @ t" "length p < length (c # pre)" for p t ds'
    proof (cases p)
      case Nil
      with that None fy_here_fy_at[of t ds'] show ?thesis by auto
    next
      case (Cons a p')
      with that nb[of p' t] show ?thesis by auto
    qed
    with ps show ?thesis unfolding leftmost_fy_def
      by (intro exI[of _ "c # pre"] exI[of _ s]) auto
  qed
qed

lemma has_fy_marker_search: "has_fy_marker text \<Longrightarrow> \<exists>ds. search_fy text = Some ds"
  unfolding has_fy_marker_def using search_fy_None
  by (metis not_Some_eq)

lemma digit_not_sep: "is_digit c \<Longrightarrow> c \<notin> set ''-/''"
  by (auto simp: is_digit_def)

lemma digit_val_le: "is_digit c \<Longrightarrow> digit_val c \<le> 9"
  by (auto simp: is_digit_def digit_val_def)

lemma is_digit_digit_char: "n < 10 \<Longrightarrow> is_digit (digit_char n)"
  unfolding is_digit_def digit_char_def by (rule nth_mem) simp

lemma str_nat_digits: "str_nat n \<noteq> [] \<and> list_all is_digit (str_nat n)"
proof (induction n rule: str_nat.induct)
  case (1 n)
  show ?case
  proof (cases "n < 10")
    case True
    then show ?thesis by (simp add: str_nat.simps[of n] is_digit_digit_char)
  next
    case False
    with 1 show ?thesis by (simp add: str_nat.simps[of n] is_digit_digit_char)
  qed
qed

lemma fiscal_period_shape:
  "\<exists>d ds. fiscal_period dt = (''Q'' @ [d], ''FY'' @ ds) \<and> d \<in> set ''1234''
           \<and> ds \<noteq> [] \<and> list_all is_digit ds"
  using str_nat_digits by (simp add: fiscal_period_def)

lemma strptime_month: "strptime s f = Inr dt \<Longrightarrow> 1 \<le> month dt \<and> month dt \<le> 12"
  by (auto simp: strptime_def Let_def split: list.splits if_splits)

lemma try_formats_month: "try_formats fs s = Some dt \<Longrightarrow> 1 \<le> month dt \<and> month dt \<le> 12"
  by (induction fs) (auto split: sum.splits exn.splits dest: strptime_month)

lemma parse_date_month: "parse_date s = Some dt \<Longrightarrow> 1 \<le> month dt \<and> month dt \<le> 12"
  by (auto simp: parse_date_def split: if_splits dest: try_formats_month)

lemma alt1_split: "(m, r) \<in> set (alt1 A s) \<Longrightarrow> s = m @ r \<and> length m = 1 \<and> set m \<subseteq> set A"
  unfolding alt1_def by (cases s) (auto split: if_splits)

lemma alt2_split: "(m, r) \<in> set (alt2 A B s) \<Longrightarrow> s = m @ r \<and> length m = 2 \<and> set m \<subseteq> set A \<union> set B"
  unfolding alt2_def by (cases s; cases "tl s") (auto split: if_splits)

lemma alt4_split: "(m, r) \<in> set (alt4 A s) \<Longrightarrow> s = m @ r \<and> length m = 4 \<and> set m \<subseteq> set A"
  unfolding alt4_def by (auto split: list.splits if_splits)

lemma re_directive_split: "(m, r) \<in> set (re_directive d s) \<Longrightarrow> s = m @ r"
  by (cases d) (auto dest: alt1_split alt2_split alt4_split)

section \<open>Period resolution: the text markers\<close>

text \<open>
  Claim C2. For every text that holds a quarter marker and a fiscal-year marker,
  \<open>determine_quarter_fy\<close> returns the quarter of the leftmost quarter marker and the fiscal
  year of the leftmost fiscal-year marker (two digits are prefixed with 20), whatever the
  date string and the clock are: the date is never consulted.
\<close>

theorem C2_markers_win:
  assumes "has_quarter_marker text" and "has_fy_marker text"
  shows "\<exists>d ds. leftmost_quarter text d \<and> leftmost_fy text ds
           \<and> (\<forall>now date_str. determine_quarter_fy now date_str text
                 = (''Q'' @ [d], ''FY'' @ (if length ds = 2 then ''20'' @ ds else ds)))"
proof -
  from assms obtain d ds where s: "search_quarter text = Some d" "search_fy text = Some ds"
    using has_quarter_marker_search has_fy_marker_search by blast
  then have "leftmost_quarter text d" "leftmost_fy text ds"
    by (simp_all add: search_quarter_Some search_fy_Some)
  moreover from s have "determine_quarter_fy now date_str text
      = (''Q'' @ [d], ''FY'' @ (if length ds = 2 then ''20'' @ ds else ds))" for now date_str
    by (simp add: determine_quarter_fy_def)
  ultimately show ?thesis by blast
qed


theorem C2_markers_win_witness:
  "has_quarter_marker ''q3 fy 25'' \<and> has_fy_marker ''q3 fy 25''
   \<and> determine_quarter_fy \<lparr>year = 2026, month = 11, day = 4\<rparr> ''01-02-2023'' ''q3 fy 25''
       = (''Q3'', ''FY2025'')"
proof -
  have q: "has_quarter_marker ''q3 fy 25''"
    unfolding has_quarter_marker_def quarter_here_def
    by (intro exI[of _ "[]"] exI[of _ "''q3 fy 25''"] exI[of _ "CHR ''3''"]) (simp add: is_digit_def)
  have f: "has_fy_marker ''q3 fy 25''"
    unfolding has_fy_marker_def fy_here_def
    by (intro exI[of _ "''q3 ''"] exI[of _ "''fy 25''"] exI[of _ "''25''"] conjI
          exI[of _ "CHR ''f''"] exI[of _ "CHR ''y''"] exI[of _ "'' ''"] exI[of _ "[]"])
       (simp_all add: is_digit_def is_space_def)
  from C2_markers_win[OF q f] obtain d ds where
    "determine_quarter_fy \<lparr>year = 2026, month = 11, day = 4\<rparr> ''01-02-2023'' ''q3 fy 25''
       = (''Q'' @ [d], ''FY'' @ (if length ds = 2 then ''20'' @ ds else ds))"
    by blast
  moreover have "determine_quarter_fy \<lparr>year = 2026, month = 11, day = 4\<rparr> ''01-02-2023'' ''q3 fy 25''
       = (''Q3'', ''FY2025'')"
    by (simp add: determine_quarter_fy_def fy_at_def is_digit_def is_space_def)
  ultimately show ?thesis using q f by simp
qed

lemma search_quarter_has: "search_quarter text = Some d \<Longrightarrow> has_quarter_marker text"
  using search_quarter_Some[of "text" d] unfolding leftmost_quarter_def has_quarter_marker_def by blast

lemma search_fy_has: "search_fy text = Some ds \<Longrightarrow> has_fy_marker text"
  using search_fy_Some[of "text" ds] fy_longest_here
  unfolding leftmost_fy_def has_fy_marker_def by blast

lemma has_quarter_marker_iff: "has_quarter_marker text \<longleftrightarrow> search_quarter text \<noteq> None"
  using has_quarter_marker_search search_quarter_has by fastforce

lemma has_fy_marker_iff: "has_fy_marker text \<longleftrightarrow> search_fy text \<noteq> None"
  using has_fy_marker_search search_fy_has by fastforce

lemma determine_without_markers:
  "\<not> (has_quarter_marker text \<and> has_fy_marker text) \<Longrightarrow>
   determine_quarter_fy now date_str text
     = (case parse_date date_str of Some dt \<Rightarrow> fiscal_period dt | None \<Rightarrow> fiscal_period now)"
  by (auto simp: determine_quarter_fy_def has_quarter_marker_iff has_fy_marker_iff split: option.splits)

lemma parse_example: "parse_date ''01-02-2023'' = Some \<lparr>year = 2023, month = 2, day = 1\<rparr>"
  by code_simp

lemma period_example: "fiscal_period \<lparr>year = 2023, month = 2, day = 1\<rparr> = (''Q4'', ''FY2023'')"
  by code_simp


section \<open>Period resolution: the date\<close>

text \<open>
  Claim C3. When the text does not hold both markers and the date string parses to a date,
  months 4 to 6 give Q1, months 7 to 9 give Q2 and months 10 to 12 give Q3, each with the
  fiscal year one above the calendar year, and months 1 to 3 give Q4 with the calendar year
  itself; a parsed month is always one of these. The date "01-02-2023" with an empty text
  resolves to Q4 of FY2023.
\<close>

theorem C3_date_quarters:
  assumes "\<not> (has_quarter_marker text \<and> has_fy_marker text)"
    and "parse_date date_str = Some dt"
  shows "(month dt \<in> {4, 5, 6} \<longrightarrow>
            determine_quarter_fy now date_str text = (''Q1'', ''FY'' @ str_nat (year dt + 1)))
       \<and> (month dt \<in> {7, 8, 9} \<longrightarrow>
            determine_quarter_fy now date_str text = (''Q2'', ''FY'' @ str_nat (year dt + 1)))
       \<and> (month dt \<in> {10, 11, 12} \<longrightarrow>
            determine_quarter_fy now date_str text = (''Q3'', ''FY'' @ str_nat (year dt + 1)))
       \<and> (month dt \<in> {1, 2, 3} \<longrightarrow>
            determine_quarter_fy now date_str text = (''Q4'', ''FY'' @ str_nat (year dt)))
       \<and> month dt \<in> {1..12}
       \<and> determine_quarter_fy now ''01-02-2023'' [] = (''Q4'', ''FY2023'')"
proof -
  have r: "determine_quarter_fy now date_str text = fiscal_period dt"
    using assms by (simp add: determine_without_markers)
  have m: "month dt \<in> {1..12}" using parse_date_month[OF assms(2)] by simp
  have "\<not> (has_quarter_marker [] \<and> has_fy_marker [])" by (simp add: has_quarter_marker_iff)
  from determine_without_markers[OF this, of now "''01-02-2023''"]
  have e: "determine_quarter_fy now ''01-02-2023'' [] = (''Q4'', ''FY2023'')"
    by (simp only: parse_example option.case period_example)
  show ?thesis using m e unfolding r fiscal_period_def by auto
qed

theorem C3_date_quarters_witness:
  "\<not> (has_quarter_marker ''Results call'' \<and> has_fy_marker ''Results call'')
   \<and> parse_date ''15/05/2024'' = Some \<lparr>year = 2024, month = 5, day = 15\<rparr>
   \<and> determine_quarter_fy \<lparr>year = 2026, month = 11, day = 4\<rparr> ''15/05/2024'' ''Results call''
       = (''Q1'', ''FY2025'')"
proof -
  have a: "\<not> (has_quarter_marker ''Results call'' \<and> has_fy_marker ''Results call'')"
    by (simp add: has_quarter_marker_iff is_digit_def)
  have b: "parse_date ''15/05/2024'' = Some \<lparr>year = 2024, month = 5, day = 15\<rparr>"
    by code_simp
  have c: "str_nat 2025 = ''2025''" by code_simp
  from C3_date_quarters[OF a b, of "\<lparr>year = 2026, month = 11, day = 4\<rparr>"] a b c
  show ?thesis by simp
qed


section \<open>Period resolution: the shape of the result\<close>

text \<open>The quarter is the digit found in the text, whatever digit it is: the text
  "Q7 FY2024" resolves to the quarter Q7.\<close>

theorem C5_quarter_counterexample:
  "fst (determine_quarter_fy \<lparr>year = 2026, month = 11, day = 4\<rparr> [] ''Q7 FY2024'')
     \<notin> {''Q1'', ''Q2'', ''Q3'', ''Q4''}"
  by (simp add: determine_quarter_fy_def fy_at_def is_digit_def is_space_def)

lemma search_fy_digits: "search_fy text = Some ds \<Longrightarrow> list_all is_digit ds \<and> 2 \<le> length ds \<and> length ds \<le> 4"
  using search_fy_Some[of "text" ds] unfolding leftmost_fy_def fy_longest_def by blast

text \<open>
  Claim C5, as the code has it. For every clock, date string and text the result is a pair
  of a quarter, "Q" and one character, and a fiscal year, "FY" and at least one character,
  so it is never partial. When the text holds both markers the character of the quarter is
  the one that follows the Q of the leftmost quarter marker, whatever \<^verbatim>\<open>\d\<close> matched
  there; otherwise the date or the clock decides and the quarter is one of Q1 to Q4.
\<close>

theorem C5_resolved_shape:
  "\<exists>d ds. determine_quarter_fy now date_str text = (''Q'' @ [d], ''FY'' @ ds) \<and> ds \<noteq> []
          \<and> (has_quarter_marker text \<and> has_fy_marker text \<longrightarrow> leftmost_quarter text d)
          \<and> (\<not> (has_quarter_marker text \<and> has_fy_marker text) \<longrightarrow> d \<in> set ''1234'')"
proof (cases "has_quarter_marker text \<and> has_fy_marker text")
  case True
  then obtain d ds where s: "search_quarter text = Some d" "search_fy text = Some ds"
    by (auto simp: has_quarter_marker_iff has_fy_marker_iff)
  from search_fy_digits[OF s(2)] have "ds \<noteq> []" by auto
  with s True search_quarter_Some[OF s(1)] show ?thesis
    by (auto simp: determine_quarter_fy_def)
next
  case False
  obtain dt where "determine_quarter_fy now date_str text = fiscal_period dt"
    using determine_without_markers[OF False, of now date_str] by (cases "parse_date date_str") auto
  moreover obtain d ds where "fiscal_period dt = (''Q'' @ [d], ''FY'' @ ds)" "d \<in> set ''1234''"
      "ds \<noteq> []"
    using fiscal_period_shape[of dt] by blast
  ultimately show ?thesis using False by auto
qed

theorem C5_resolved_shape_witness:
  "\<not> (has_quarter_marker ''Annual report'' \<and> has_fy_marker ''Annual report'')
   \<and> (\<exists>d ds. determine_quarter_fy \<lparr>year = 2026, month = 11, day = 4\<rparr> [] ''Annual report''
                = (''Q'' @ [d], ''FY'' @ ds) \<and> d \<in> set ''1234'')
   \<and> has_quarter_marker ''Q7 FY2024'' \<and> has_fy_marker ''Q7 FY2024''
   \<and> (\<exists>d ds. determine_quarter_fy \<lparr>year = 2026, month = 11, day = 4\<rparr> [] ''Q7 FY2024''
                = (''Q'' @ [d], ''FY'' @ ds) \<and> leftmost_quarter ''Q7 FY2024'' d)"
proof -
  have a: "\<not> (has_quarter_marker ''Annual report'' \<and> has_fy_marker ''Annual report'')"
    by (simp add: has_quarter_marker_iff is_digit_def)
  have q: "has_quarter_marker ''Q7 FY2024''" by (simp add: has_quarter_marker_iff is_digit_def)
  have f: "has_fy_marker ''Q7 FY2024''"
    by (simp add: has_fy_marker_iff fy_at_def is_digit_def is_space_def)
  from C5_resolved_shape[of "\<lparr>year = 2026, month = 11, day = 4\<rparr>" "[]" "''Annual report''"] a
  have 1: "\<exists>d ds. determine_quarter_fy \<lparr>year = 2026, month = 11, day = 4\<rparr> [] ''Annual report''
                = (''Q'' @ [d], ''FY'' @ ds) \<and> d \<in> set ''1234''" by blast
  from C5_resolved_shape[of "\<lparr>year = 2026, month = 11, day = 4\<rparr>" "[]" "''Q7 FY2024''"] q f
  have 2: "\<exists>d ds. determine_quarter_fy \<lparr>year = 2026, month = 11, day = 4\<rparr> [] ''Q7 FY2024''
                = (''Q'' @ [d], ''FY'' @ ds) \<and> leftmost_quarter ''Q7 FY2024'' d" by blast
  from a q f 1 2 show ?thesis by blast
qed


section \<open>Period resolution: dates with a two-digit year\<close>

lemma subset_digits: "set m \<subseteq> set ''0123456789'' \<Longrightarrow> list_all is_digit m"
  unfolding list_all_iff is_digit_def by blast

lemma re_directive_Y: "(m, r) \<in> set (re_directive Dir_Y s) \<Longrightarrow> length m = 4 \<and> list_all is_digit m"
  by (auto dest!: alt4_split intro: subset_digits)

lemma re_directive_y: "(m, r) \<in> set (re_directive Dir_y s) \<Longrightarrow> length m = 2 \<and> list_all is_digit m"
  by (auto dest!: alt2_split intro: subset_digits)

lemma re_match_Cons:
  "(g, r) \<in> set (re_match (d # ds) s) \<Longrightarrow>
   \<exists>m r0 g'. g = (d, m) # g' \<and> (m, r0) \<in> set (re_directive d s) \<and> s = m @ r0
             \<and> (g', r) \<in> set (re_match ds r0)"
  by (auto dest: re_directive_split)

lemma re_match5:
  assumes "(g, r) \<in> set (re_match [a, b, c, d, e] s)"
  shows "\<exists>ma mb mc md me ra rb rc rd re.
           g = [(a, ma), (b, mb), (c, mc), (d, md), (e, me)] \<and> s = ma @ mb @ mc @ md @ me @ r
           \<and> (ma, ra) \<in> set (re_directive a s) \<and> (mb, rb) \<in> set (re_directive b ra)
           \<and> (mc, rc) \<in> set (re_directive c rb) \<and> (md, rd) \<in> set (re_directive d rc)
           \<and> (me, re) \<in> set (re_directive e rd)"
proof -
  from re_match_Cons[OF assms] obtain ma ra g1 where 1: "g = (a, ma) # g1"
    "(ma, ra) \<in> set (re_directive a s)" "s = ma @ ra" "(g1, r) \<in> set (re_match [b, c, d, e] ra)"
    by blast
  from re_match_Cons[OF 1(4)] obtain mb rb g2 where 2: "g1 = (b, mb) # g2"
    "(mb, rb) \<in> set (re_directive b ra)" "ra = mb @ rb" "(g2, r) \<in> set (re_match [c, d, e] rb)"
    by blast
  from re_match_Cons[OF 2(4)] obtain mc rc g3 where 3: "g2 = (c, mc) # g3"
    "(mc, rc) \<in> set (re_directive c rb)" "rb = mc @ rc" "(g3, r) \<in> set (re_match [d, e] rc)"
    by blast
  from re_match_Cons[OF 3(4)] obtain md rd g4 where 4: "g3 = (d, md) # g4"
    "(md, rd) \<in> set (re_directive d rc)" "rc = md @ rd" "(g4, r) \<in> set (re_match [e] rd)"
    by blast
  from re_match_Cons[OF 4(4)] obtain me re g5 where 5: "g4 = (e, me) # g5"
    "(me, re) \<in> set (re_directive e rd)" "rd = me @ re" "(g5, r) \<in> set (re_match [] re)"
    by blast
  from 5(4) have "g5 = []" "re = r" by simp_all
  with 1 2 3 4 5 show ?thesis by blast
qed

lemma strptime_Inr:
  "strptime s f = Inr dt \<Longrightarrow>
   \<exists>g. (g, []) \<in> set (re_match f s) \<and> year dt = group_year g"
  by (fastforce simp: strptime_def Let_def split: list.splits if_splits)

lemma strptime_Inl: "strptime s f = Inl e \<Longrightarrow> e = ValueError"
  by (auto simp: strptime_def Let_def split: list.splits if_splits)

lemma strptime_cases:
  "strptime s f = Inl ValueError \<or> (\<exists>dt. strptime s f = Inr dt)"
  using strptime_Inl by (cases "strptime s f") auto

lemma strptime_ends_Y:
  assumes "strptime s [a, b, c, d, Dir_Y] = Inr dt"
  shows "\<exists>p y. s = p @ y \<and> length y = 4 \<and> list_all is_digit y"
proof -
  from strptime_Inr[OF assms] obtain g where "(g, []) \<in> set (re_match [a, b, c, d, Dir_Y] s)"
    by blast
  from re_match5[OF this] obtain ma mb mc md me rd re where
    s: "s = ma @ mb @ mc @ md @ me @ []" and "(me, re) \<in> set (re_directive Dir_Y rd)"
    by blast
  from this(2) have "length me = 4 \<and> list_all is_digit me" by (rule re_directive_Y)
  with s show ?thesis by (intro exI[of _ "ma @ mb @ mc @ md"] exI[of _ me]) simp
qed

lemma two_digit_not_ends_Y:
  assumes "two_digit_year_date s" and "s = p @ y" and "length y = 4"
  shows "\<not> list_all is_digit y"
proof -
  from assms(1) obtain D M sep y1 y2 where s: "s = D @ [sep] @ M @ [sep] @ [y1, y2]"
    and sep: "sep \<in> set ''-/''"
    unfolding two_digit_year_date_def by blast
  from assms(3) obtain a b c d where y: "y = [a, b, c, d]"
    by (auto simp: length_Suc_conv numeral_eq_Suc)
  have "take 3 (rev s) = [y2, y1, sep]" using s by simp
  moreover have "take 3 (rev s) = [d, c, b]" using assms(2) y by simp
  ultimately have "b = sep" by simp
  with sep have "\<not> is_digit b" by (auto dest: digit_not_sep)
  with y show ?thesis by simp
qed

lemma strptime_starts_Y:
  assumes "strptime s [Dir_Y, b, c, d, e] = Inr dt"
  shows "\<exists>y r. s = y @ r \<and> length y = 4 \<and> list_all is_digit y"
proof -
  from strptime_Inr[OF assms] obtain g where "(g, []) \<in> set (re_match [Dir_Y, b, c, d, e] s)"
    by blast
  from re_match5[OF this] obtain ma mb mc md me ra where
    s: "s = ma @ mb @ mc @ md @ me @ []" and "(ma, ra) \<in> set (re_directive Dir_Y s)"
    by blast
  from this(2) have "length ma = 4 \<and> list_all is_digit ma" by (rule re_directive_Y)
  with s show ?thesis by blast
qed

lemma two_digit_not_starts_Y:
  assumes "two_digit_year_date s" and "s = y @ r" and "length y = 4"
  shows "\<not> list_all is_digit y"
proof -
  from assms(1) obtain D M sep y1 y2 where s: "s = D @ [sep] @ M @ [sep] @ [y1, y2]"
    and sep: "sep \<in> set ''-/''" and D: "D \<noteq> []" "length D \<le> 2"
    unfolding two_digit_year_date_def by blast
  from assms(3) obtain a b c d where y: "y = [a, b, c, d]"
    by (auto simp: length_Suc_conv numeral_eq_Suc)
  from D consider d1 where "D = [d1]" | d1 d2 where "D = [d1, d2]"
    by (cases D; cases "tl D") auto
  then have "b = sep \<or> c = sep"
  proof cases
    case 1
    with s assms(2) y show ?thesis by simp
  next
    case 2
    with s assms(2) y show ?thesis by simp
  qed
  with sep have "\<not> is_digit b \<or> \<not> is_digit c" by (auto dest: digit_not_sep)
  with y show ?thesis by auto
qed

lemma two_digit_rejects_four:
  assumes "two_digit_year_date s"
  shows "strptime s fmt_dmY_dash = Inl ValueError"
    and "strptime s fmt_dmY_slash = Inl ValueError"
    and "strptime s fmt_Ymd_dash = Inl ValueError"
proof -
  show "strptime s fmt_dmY_dash = Inl ValueError"
    using strptime_cases[of s fmt_dmY_dash] strptime_ends_Y[of s] two_digit_not_ends_Y[OF assms]
    unfolding fmt_dmY_dash_def by blast
  show "strptime s fmt_dmY_slash = Inl ValueError"
    using strptime_cases[of s fmt_dmY_slash] strptime_ends_Y[of s] two_digit_not_ends_Y[OF assms]
    unfolding fmt_dmY_slash_def by blast
  show "strptime s fmt_Ymd_dash = Inl ValueError"
    using strptime_cases[of s fmt_Ymd_dash] strptime_starts_Y[of s] two_digit_not_starts_Y[OF assms]
    unfolding fmt_Ymd_dash_def by blast
qed

lemma int_of_two_digits:
  assumes "is_digit y1" "is_digit y2"
  shows "int_of_str [y1, y2] = 10 * digit_val y1 + digit_val y2" and "int_of_str [y1, y2] \<le> 99"
proof -
  show e: "int_of_str [y1, y2] = 10 * digit_val y1 + digit_val y2"
    using assms by (simp add: int_of_str_def digit_not_space)
  show "int_of_str [y1, y2] \<le> 99"
    unfolding e using digit_val_le[OF assms(1)] digit_val_le[OF assms(2)] by simp
qed

lemma strptime_y_year:
  assumes "strptime s [Dir_d, Lit c, Dir_m, Lit c', Dir_y] = Inr dt"
  shows "\<exists>p y. s = p @ y \<and> length y = 2 \<and> list_all is_digit y \<and> year dt = expand_year (int_of_str y)"
proof -
  from strptime_Inr[OF assms] obtain g where
    g: "(g, []) \<in> set (re_match [Dir_d, Lit c, Dir_m, Lit c', Dir_y] s)" and y: "year dt = group_year g"
    by blast
  from re_match5[OF g] obtain ma mb mc md me rd re where
    gs: "g = [(Dir_d, ma), (Lit c, mb), (Dir_m, mc), (Lit c', md), (Dir_y, me)]"
    and s: "s = ma @ mb @ mc @ md @ me @ []" and "(me, re) \<in> set (re_directive Dir_y rd)"
    by blast
  from this(3) have me: "length me = 2 \<and> list_all is_digit me" by (rule re_directive_y)
  have "group_year g = expand_year (int_of_str me)"
    unfolding gs by (simp add: group_year_def expand_year_def Let_def)
  with y me s show ?thesis by (intro exI[of _ "ma @ mb @ mc @ md"] exI[of _ me]) simp
qed


text \<open>The four-digit-year format does not accept "01-02-23": \<^verbatim>\<open>%Y\<close> needs four
  digits. The two-digit format parses it, as the year 2023.\<close>

theorem C10_literal_year_counterexample:
  "strptime ''01-02-23'' fmt_dmY_dash = Inl ValueError
   \<and> strptime ''01-02-23'' fmt_dmy_dash = Inr \<lparr>year = 2023, month = 2, day = 1\<rparr>
   \<and> determine_quarter_fy \<lparr>year = 2026, month = 11, day = 4\<rparr> ''01-02-23'' [] = (''Q4'', ''FY2023'')"
proof -
  have "strptime ''01-02-23'' fmt_dmY_dash = Inl ValueError" by code_simp
  moreover have "strptime ''01-02-23'' fmt_dmy_dash = Inr \<lparr>year = 2023, month = 2, day = 1\<rparr>"
    by code_simp
  moreover have "determine_quarter_fy \<lparr>year = 2026, month = 11, day = 4\<rparr> ''01-02-23'' []
      = (''Q4'', ''FY2023'')"
    by code_simp
  ultimately show ?thesis by blast
qed


text \<open>
  Claim C10, as the code has it. For every date string of day, month and a two-digit year,
  the three formats with a four-digit year raise \<^verbatim>\<open>ValueError\<close>, so the string reaches
  the two-digit formats; when it parses, the year is the two digits with 2000 added (up to
  68) or 1900 added (from 69), a year between 1969 and 2068 and never the two digits alone.
\<close>

theorem C10_two_digit_year:
  assumes "two_digit_year_date s"
  shows "strptime s fmt_dmY_dash = Inl ValueError
       \<and> strptime s fmt_dmY_slash = Inl ValueError
       \<and> strptime s fmt_Ymd_dash = Inl ValueError
       \<and> (\<forall>dt. parse_date s = Some dt \<longrightarrow>
              (strptime s fmt_dmy_dash = Inr dt \<or> strptime s fmt_dmy_slash = Inr dt)
              \<and> year dt = expand_year (int_of_str (year_digits s))
              \<and> 1969 \<le> year dt \<and> year dt \<le> 2068)"
proof -
  note rej = two_digit_rejects_four[OF assms]
  from assms obtain D M sep y1 y2 where s: "s = D @ [sep] @ M @ [sep] @ [y1, y2]"
    and dg: "is_digit y1" "is_digit y2"
    unfolding two_digit_year_date_def by blast
  have yd: "year_digits s = [y1, y2]" unfolding year_digits_def s by simp
  have "(strptime s fmt_dmy_dash = Inr dt \<or> strptime s fmt_dmy_slash = Inr dt)
        \<and> year dt = expand_year (int_of_str (year_digits s))
        \<and> 1969 \<le> year dt \<and> year dt \<le> 2068" if p: "parse_date s = Some dt" for dt
  proof -
    from p rej have src: "strptime s fmt_dmy_dash = Inr dt \<or> strptime s fmt_dmy_slash = Inr dt"
      by (auto simp: parse_date_def date_formats_def split: if_splits sum.splits exn.splits)
    then obtain p y where py: "s = p @ y" "length y = 2" "year dt = expand_year (int_of_str y)"
      using strptime_y_year[of s _ _ dt] unfolding fmt_dmy_dash_def fmt_dmy_slash_def by blast
    from py(1,2) s have "y = [y1, y2]" by (auto simp: append_eq_append_conv2 length_Suc_conv numeral_eq_Suc append_eq_Cons_conv Cons_eq_append_conv)
    with py yd have yr: "year dt = expand_year (int_of_str (year_digits s))" by simp
    have "int_of_str (year_digits s) \<le> 99" unfolding yd using int_of_two_digits(2)[OF dg] .
    then have "1969 \<le> expand_year (int_of_str (year_digits s))
             \<and> expand_year (int_of_str (year_digits s)) \<le> 2068"
      by (simp add: expand_year_def)
    with src yr show ?thesis by simp
  qed
  with rej show ?thesis by blast
qed


theorem C10_two_digit_year_witness:
  "two_digit_year_date ''01/02/23''
   \<and> parse_date ''01/02/23'' = Some \<lparr>year = 2023, month = 2, day = 1\<rparr>
   \<and> strptime ''01/02/23'' fmt_dmY_slash = Inl ValueError
   \<and> strptime ''01/02/23'' fmt_dmy_slash = Inr \<lparr>year = 2023, month = 2, day = 1\<rparr>
   \<and> expand_year (int_of_str (year_digits ''01/02/23'')) = 2023"
proof -
  have t: "two_digit_year_date ''01/02/23''"
    unfolding two_digit_year_date_def
    by (intro exI[of _ "''01''"] exI[of _ "''02''"] exI[of _ "CHR ''/''"]
          exI[of _ "CHR ''2''"] exI[of _ "CHR ''3''"]) (simp add: is_digit_def)
  have p: "parse_date ''01/02/23'' = Some \<lparr>year = 2023, month = 2, day = 1\<rparr>"
    by code_simp
  have n: "strptime ''01/02/23'' fmt_dmy_dash \<noteq> Inr \<lparr>year = 2023, month = 2, day = 1\<rparr>"
    by code_simp
  from C10_two_digit_year[OF t] p n t show ?thesis by auto
qed

section \<open>Extraction: the URL of a descriptor\<close>

text \<open>A descriptor of a listing row has a URL that starts with "http": the three branches
  of \<open>parse_transcript_row\<close> cover every target.\<close>

lemma parse_transcript_row_url:
  assumes "parse_transcript_row r = Some t"
  shows "\<exists>u. pdf_url t = Some u \<and> startswith u ''http''"
proof (cases "find (\<lambda>href. contains (lower href) ''.pdf'' \<or> contains (lower href) ''transcript'')
                (row_links r)")
  case None
  with assms show ?thesis by (simp add: parse_transcript_row_def)
next
  case (Some href)
  with assms have "pdf_url t = Some
      (if startswith href ''/'' then site_root @ href
       else if \<not> startswith href ''http'' then site_root @ ''/'' @ href else href)"
    by (cases "href = []") (auto simp: parse_transcript_row_def Let_def)
  moreover have "startswith (site_root @ x) ''http''" for x
    by (simp add: startswith_def site_root_def)
  ultimately show ?thesis by auto
qed


text \<open>
  Claim C6. The URL of every extracted descriptor starts with "http". The extraction of a
  company page does not keep this: a target that is neither absolute nor root-relative is
  stored as it is. The anchor with target "docs/transcript_q1.pdf" gives a descriptor whose
  URL is that relative target.
\<close>

theorem C6_company_url_relative:
  "get_company_transcripts (Inr [(''docs/transcript_q1.pdf'', ''Concall'')])
     = [\<lparr>company = None, pdf_url = Some ''docs/transcript_q1.pdf'', date = None,
         quarter = Some ''Unknown'', fiscal_year = Some ''Unknown'', raw_text = None,
         link_text = Some ''Concall''\<rparr>]
   \<and> \<not> startswith ''docs/transcript_q1.pdf'' ''http''"
  by code_simp


section \<open>The crawlers: pages requested\<close>

lemma scrape_loop_fetched:
  assumes "1 \<le> page" "page \<le> 200"
  shows "\<exists>n. page \<le> n \<and> n \<le> 200
           \<and> snd (scrape_loop site page ts fetched) = fetched @ [page..<Suc n]
           \<and> (\<forall>p. page \<le> p \<and> p < n \<longrightarrow> scrape_continues site p)
           \<and> (n = 200 \<or> \<not> scrape_continues site n)"
  using assms
proof (induction site page ts fetched rule: scrape_loop.induct)
  case (1 site page transcripts fetched)
  show ?case
  proof (cases "scrape_continues site page \<and> page < 200")
    case False
    then have "snd (scrape_loop site page transcripts fetched) = fetched @ [page]"
      by (subst scrape_loop.simps)
         (auto simp: scrape_continues_def Let_def split: sum.splits)
    moreover from False have "page = 200 \<or> \<not> scrape_continues site page" using 1 by auto
    ultimately show ?thesis using 1
      by (intro exI[of _ page]) auto
  next
    case True
    then obtain pg where pg: "site page = Inr pg" "page_rows pg \<noteq> []" "next_link pg"
      by (auto simp: scrape_continues_def split: sum.splits)
    define ts' where "ts' = transcripts @ List.map_filter parse_transcript_row (page_rows pg)"
    have step: "scrape_loop site page transcripts fetched
        = scrape_loop site (page + 1) ts' (fetched @ [page])"
      using pg True by (subst scrape_loop.simps) (simp add: Let_def ts'_def)
    from 1(1)[OF pg(1) pg(2) refl] pg True 1(2,3)
    obtain n where n: "page + 1 \<le> n" "n \<le> 200"
      "snd (scrape_loop site (page + 1) ts' (fetched @ [page])) = (fetched @ [page]) @ [page + 1..<Suc n]"
      "\<forall>p. page + 1 \<le> p \<and> p < n \<longrightarrow> scrape_continues site p"
      "n = 200 \<or> \<not> scrape_continues site n"
      by (auto simp: ts'_def)
    have "[page..<Suc n] = page # [page + 1..<Suc n]" using n(1) by (simp add: upt_conv_Cons)
    moreover have "scrape_continues site p" if "page \<le> p" "p < n" for p
      using that n(4) True by (cases "p = page") auto
    ultimately show ?thesis using n step
      by (intro exI[of _ n]) auto
  qed
qed


lemma companies_loop_fetched:
  assumes "1 \<le> page" "page \<le> 100"
  shows "\<exists>n. page \<le> n \<and> n \<le> 100
           \<and> snd (companies_loop site page cs fetched) = fetched @ [page..<Suc n]
           \<and> (\<forall>p. page \<le> p \<and> p < n \<longrightarrow> companies_continues site p)
           \<and> (n = 100 \<or> \<not> companies_continues site n)"
  using assms
proof (induction site page cs fetched rule: companies_loop.induct)
  case (1 site page companies fetched)
  show ?case
  proof (cases "companies_continues site page \<and> page < 100")
    case False
    then have "snd (companies_loop site page companies fetched) = fetched @ [page]"
      by (subst companies_loop.simps)
         (auto simp: companies_continues_def Let_def split: sum.splits)
    moreover from False have "page = 100 \<or> \<not> companies_continues site page" using 1 by auto
    ultimately show ?thesis using 1
      by (intro exI[of _ page]) auto
  next
    case True
    then obtain pg where pg: "site page = Inr pg" "company_links pg \<noteq> []"
      "next_button pg \<or> page \<le> 50"
      by (auto simp: companies_continues_def split: sum.splits)
    define cs' where "cs' = companies @ List.map_filter company_of_link (company_links pg)"
    have step: "companies_loop site page companies fetched
        = companies_loop site (page + 1) cs' (fetched @ [page])"
      using pg True by (subst companies_loop.simps) (auto simp: Let_def cs'_def)
    from 1(1)[OF pg(1) pg(2) refl] pg True 1(2,3)
    obtain n where n: "page + 1 \<le> n" "n \<le> 100"
      "snd (companies_loop site (page + 1) cs' (fetched @ [page])) = (fetched @ [page]) @ [page + 1..<Suc n]"
      "\<forall>p. page + 1 \<le> p \<and> p < n \<longrightarrow> companies_continues site p"
      "n = 100 \<or> \<not> companies_continues site n"
      by (auto simp: cs'_def)
    have "[page..<Suc n] = page # [page + 1..<Suc n]" using n(1) by (simp add: upt_conv_Cons)
    moreover have "companies_continues site p" if "page \<le> p" "p < n" for p
      using that n(4) True by (cases "p = page") auto
    ultimately show ?thesis using n step
      by (intro exI[of _ n]) auto
  qed
qed

lemma get_all_companies_fetched:
  "snd (get_all_companies site) = snd (companies_loop site 1 [] [])"
  by (simp add: get_all_companies_def split: prod.splits sum.splits)

lemma scrape_fetched:
  "\<exists>n. 1 \<le> n \<and> n \<le> 200 \<and> snd (scrape_transcripts_page site) = [1..<Suc n]
       \<and> (\<forall>p. 1 \<le> p \<and> p < n \<longrightarrow> scrape_continues site p)
       \<and> (n = 200 \<or> \<not> scrape_continues site n)"
  using scrape_loop_fetched[of 1 site "[]" "[]"] by (simp add: scrape_transcripts_page_def)

lemma companies_fetched:
  "\<exists>n. 1 \<le> n \<and> n \<le> 100 \<and> snd (get_all_companies site) = [1..<Suc n]
       \<and> (\<forall>p. 1 \<le> p \<and> p < n \<longrightarrow> companies_continues site p)
       \<and> (n = 100 \<or> \<not> companies_continues site n)"
  using companies_loop_fetched[of 1 site "[]" "[]"] by (simp add: get_all_companies_fetched)


text \<open>A company listing that never shows a next-page link is crawled up to page 51 at
  most: the check against 50 is made before the counter moves.\<close>

lemma companies_without_next_button:
  assumes "\<And>p pg. site p = Inr pg \<Longrightarrow> \<not> next_button pg"
  shows "length (snd (get_all_companies site)) \<le> 51"
proof -
  from companies_fetched[of site] obtain n where n: "1 \<le> n"
    "snd (get_all_companies site) = [1..<Suc n]"
    "\<forall>p. 1 \<le> p \<and> p < n \<longrightarrow> companies_continues site p"
    by blast
  have "n \<le> 51"
  proof (rule ccontr)
    assume "\<not> n \<le> 51"
    with n(3) have "companies_continues site 51" by simp
    with assms show False
      by (auto simp: companies_continues_def split: sum.splits)
  qed
  with n(2) show ?thesis by simp
qed

text \<open>
  Claim C8. For every behaviour of the listing, both crawl loops end: the transcript crawler
  requests the pages 1 to n in order for some n up to 200, the company crawler the pages 1
  to m for some m up to 100. A listing that has rows and a next-page link on every page is
  crawled up to page 200, a company listing of that kind up to page 100.
\<close>

theorem C8_crawls_terminate:
  "(\<exists>n. n \<le> 200 \<and> snd (scrape_transcripts_page site) = [1..<Suc n])
   \<and> (\<exists>m. m \<le> 100 \<and> snd (get_all_companies csite) = [1..<Suc m])
   \<and> length (snd (scrape_transcripts_page site)) \<le> 200
   \<and> length (snd (get_all_companies csite)) \<le> 100
   \<and> snd (scrape_transcripts_page endless_listing) = [1..<Suc 200]
   \<and> snd (get_all_companies endless_companies) = [1..<Suc 100]"
proof -
  obtain n where n: "n \<le> 200" "snd (scrape_transcripts_page site) = [1..<Suc n]"
    using scrape_fetched[of site] by blast
  obtain m where m: "m \<le> 100" "snd (get_all_companies csite) = [1..<Suc m]"
    using companies_fetched[of csite] by blast
  have "scrape_continues endless_listing p" for p
    by (simp add: scrape_continues_def endless_listing_def page_rows_def)
  then have e: "snd (scrape_transcripts_page endless_listing) = [1..<Suc 200]"
    using scrape_fetched[of endless_listing] by blast
  have "companies_continues endless_companies p" for p
    by (simp add: companies_continues_def endless_companies_def)
  then have c: "snd (get_all_companies endless_companies) = [1..<Suc 100]"
    using companies_fetched[of endless_companies] by blast
  have ln: "length (snd (scrape_transcripts_page site)) \<le> 200" unfolding n(2) using n(1) by simp
  have lm: "length (snd (get_all_companies csite)) \<le> 100" unfolding m(2) using m(1) by simp
  from n m e c ln lm show ?thesis by blast
qed


text \<open>A page of the transcript listing that has rows and no next-page link ends the crawl,
  although the next page has rows and the cap is far: only page 1 is requested.\<close>

theorem C7_next_link_counterexample:
  "(case unlinked_listing 1 of Inl _ \<Rightarrow> False | Inr pg \<Rightarrow> page_rows pg \<noteq> [])
   \<and> (case unlinked_listing 2 of Inl _ \<Rightarrow> False | Inr pg \<Rightarrow> page_rows pg \<noteq> [])
   \<and> snd (scrape_transcripts_page unlinked_listing) = [1]"
proof -
  have "\<not> scrape_continues unlinked_listing 1"
    by (simp add: scrape_continues_def unlinked_listing_def)
  then have "snd (scrape_transcripts_page unlinked_listing) = [1]"
    using scrape_fetched[of unlinked_listing]
    by (metis One_nat_def Suc_1 le_neq_implies_less order_refl upt_rec_numeral(1) upt_conv_Cons upt_eq_Nil_conv lessI less_irrefl_nat)
  then show ?thesis by (simp add: unlinked_listing_def page_rows_def)
qed


text \<open>
  Claim C7, as the code has it. The transcript crawler requests the pages 1 to n, where every
  page before n loaded, had rows and had a next-page link, and page n is page 200 or fails
  one of these: a missing next-page link stops it. The company crawler requests the pages 1
  to m, where every page before m loaded, had links and had a next-page link or a number up
  to 50, and page m is page 100 or fails one of these: a missing next-page link stops it
  only after page 50.
\<close>

theorem C7_crawl_stops:
  "\<exists>n m. 1 \<le> n \<and> n \<le> 200 \<and> snd (scrape_transcripts_page site) = [1..<Suc n]
         \<and> (\<forall>p. 1 \<le> p \<and> p < n \<longrightarrow> scrape_continues site p)
         \<and> (n = 200 \<or> \<not> scrape_continues site n)
         \<and> 1 \<le> m \<and> m \<le> 100 \<and> snd (get_all_companies csite) = [1..<Suc m]
         \<and> (\<forall>p. 1 \<le> p \<and> p < m \<longrightarrow> companies_continues csite p)
         \<and> (m = 100 \<or> \<not> companies_continues csite m)"
  using scrape_fetched[of site] companies_fetched[of csite] by blast


theorem C7_crawl_stops_witness:
  "\<not> scrape_continues unlinked_listing 1
   \<and> snd (scrape_transcripts_page unlinked_listing) = [1..<Suc 1]
   \<and> companies_continues endless_companies 99
   \<and> snd (get_all_companies endless_companies) = [1..<Suc 100]"
proof -
  have a: "\<not> scrape_continues unlinked_listing 1"
    by (simp add: scrape_continues_def unlinked_listing_def)
  have b: "companies_continues endless_companies p" for p
    by (simp add: companies_continues_def endless_companies_def)
  from C7_crawl_stops[of unlinked_listing endless_companies] obtain n m where
    n: "1 \<le> n" "snd (scrape_transcripts_page unlinked_listing) = [1..<Suc n]"
       "\<forall>p. 1 \<le> p \<and> p < n \<longrightarrow> scrape_continues unlinked_listing p"
    and m: "snd (get_all_companies endless_companies) = [1..<Suc m]"
       "m = 100 \<or> \<not> companies_continues endless_companies m"
    by blast
  from n(1,3) a have "n = 1" by (metis le_neq_implies_less order_refl)
  moreover from m(2) b have "m = 100" by blast
  ultimately show ?thesis using n(2) m(1) a b by blast
qed

section \<open>Period resolution: fiscal years of two digits\<close>

lemma acme_parse: "parse_transcript_row acme_row = Some acme_transcript"
  by code_simp

lemma acme_period: "resolve_period a_clock acme_transcript = (''Q2'', ''FY24'')"
  by code_simp


lemma acme_determine:
  "determine_quarter_fy now date_str ''Acme Corp Q2 FY24 Transcript 15-07-2024'' = (''Q2'', ''FY2024'')"
proof -
  have "search_quarter ''Acme Corp Q2 FY24 Transcript 15-07-2024'' = Some CHR ''2''" by code_simp
  moreover have "search_fy ''Acme Corp Q2 FY24 Transcript 15-07-2024'' = Some ''24''" by code_simp
  ultimately show ?thesis by (simp add: determine_quarter_fy_def)
qed

lemma acme_upload:
  "download_and_upload_transcripts calm_world [acme_transcript] []
     = (\<lparr>downloaded = 1, skipped = 0, failed = 0\<rparr>,
        [\<lparr>eid = 1, ename = ''FY24'', eparent = 0, is_folder = True\<rparr>,
         \<lparr>eid = 2, ename = ''Q2'', eparent = 1, is_folder = True\<rparr>,
         \<lparr>eid = 3, ename = ''Acme Corp - FY24 Q2 Transcript.pdf'', eparent = 2,
            is_folder = False\<rparr>])"
  by code_simp

text \<open>
  Claim C4. A fiscal-year marker of two digits is to end as the four-digit fiscal year, also
  through the pipeline. The resolver does expand it: for the text
  "Acme Corp Q2 FY24 Transcript 15-07-2024" it returns Q2 and FY2024. The extraction of the
  row keeps the marker as it stands, as the hint "FY24", and the pipeline takes the hint in
  place of the resolved value: the period of the descriptor is Q2 of FY24, and the file is
  stored under a folder named FY24.
\<close>

theorem C4_hint_not_expanded:
  "parse_transcript_row acme_row = Some acme_transcript
   \<and> fiscal_year acme_transcript = Some ''FY24''
   \<and> determine_quarter_fy a_clock ''15-07-2024'' ''Acme Corp Q2 FY24 Transcript 15-07-2024''
       = (''Q2'', ''FY2024'')
   \<and> resolve_period a_clock acme_transcript = (''Q2'', ''FY24'')
   \<and> download_and_upload_transcripts calm_world [acme_transcript] []
       = (\<lparr>downloaded = 1, skipped = 0, failed = 0\<rparr>,
          [\<lparr>eid = 1, ename = ''FY24'', eparent = 0, is_folder = True\<rparr>,
           \<lparr>eid = 2, ename = ''Q2'', eparent = 1, is_folder = True\<rparr>,
           \<lparr>eid = 3, ename = ''Acme Corp - FY24 Q2 Transcript.pdf'', eparent = 2,
              is_folder = False\<rparr>])"
proof -
  have "fiscal_year acme_transcript = Some ''FY24''" by (simp add: acme_transcript_def)
  with acme_parse acme_determine acme_period acme_upload show ?thesis by blast
qed


section \<open>The pipeline: failures\<close>

lemma get_or_create_folder_prefix:
  "get_or_create_folder lr cr d n p = (r, d') \<Longrightarrow> prefix d d'"
  by (auto simp: get_or_create_folder_def split: option.splits list.splits)

lemma upload_to_drive_prefix:
  "upload_to_drive lr cr d n p = (r, d') \<Longrightarrow> prefix d d'"
  by (auto simp: upload_to_drive_def file_exists_in_drive_def split: option.splits sum.splits if_splits bool.splits)

lemma process_transcript_prefix:
  assumes "process_transcript w t d = (r, d')"
  shows "prefix d d'"
proof (cases "pdf_url t = None \<or> pdf_url t = Some []")
  case True
  with assms show ?thesis by (auto simp: process_transcript_def)
next
  case False
  obtain q fy where p: "resolve_period (clock w) t = (q, fy)" by (cases "resolve_period (clock w) t")
  obtain r1 d1 where g1: "get_or_create_folder (fault w ListFY) (fault w CreateFY) d fy DRIVE_FOLDER_ID = (r1, d1)"
    by (cases "get_or_create_folder (fault w ListFY) (fault w CreateFY) d fy DRIVE_FOLDER_ID")
  note p1 = get_or_create_folder_prefix[OF g1]
  show ?thesis
  proof (cases r1)
    case (Inl e)
    with assms False p g1 p1 show ?thesis by (simp add: process_transcript_def)
  next
    case (Inr fid)
    obtain r2 d2 where g2: "get_or_create_folder (fault w ListQ) (fault w CreateQ) d1 q fid = (r2, d2)"
      by (cases "get_or_create_folder (fault w ListQ) (fault w CreateQ) d1 q fid")
    note p2 = prefix_order.order_trans[OF p1 get_or_create_folder_prefix[OF g2]]
    show ?thesis
    proof (cases r2)
      case (Inl e)
      with assms False p g1 g2 p2 \<open>r1 = Inr fid\<close> show ?thesis by (simp add: process_transcript_def)
    next
      case (Inr qid)
      obtain r3 d3 where g3: "upload_to_drive (fault w UploadExists) (fault w UploadCreate) d2
          (transcript_filename t fy q) qid = (r3, d3)"
        by (cases "upload_to_drive (fault w UploadExists) (fault w UploadCreate) d2
          (transcript_filename t fy q) qid")
      note p3 = prefix_order.order_trans[OF p2 upload_to_drive_prefix[OF g3]]
      from assms False p g1 g2 g3 p2 p3 \<open>r1 = Inr fid\<close> Inr show ?thesis
        by (auto simp: process_transcript_def split: sum.splits bool.splits option.splits)
    qed
  qed
qed


lemma run_transcripts_prefix:
  "run_transcripts world i ts st d = (st', d') \<Longrightarrow> prefix d d'"
proof (induction ts arbitrary: i st d)
  case Nil
  then show ?case by simp
next
  case (Cons t ts)
  obtain r d1 where p: "process_transcript (world i) t d = (r, d1)"
    by (cases "process_transcript (world i) t d")
  with Cons.prems have "run_transcripts world (Suc i) ts (tally r st) d1 = (st', d')" by simp
  from Cons.IH[OF this] process_transcript_prefix[OF p] show ?case by auto
qed

lemma run_results_length: "length (run_results world i ts d) = length ts"
  by (induction ts arbitrary: i d) (auto split: prod.splits)

lemma tally_failed: "failed (tally r st) = failed st + (if isl r then 1 else 0)"
  by (cases "(r, st)" rule: tally.cases) auto

lemma run_transcripts_failed:
  "failed (fst (run_transcripts world i ts st d))
     = failed st + length (filter isl (run_results world i ts d))"
proof (induction ts arbitrary: i st d)
  case Nil
  then show ?case by simp
next
  case (Cons t ts)
  obtain r d1 where p: "process_transcript (world i) t d = (r, d1)"
    by (cases "process_transcript (world i) t d")
  show ?case using Cons.IH[of "Suc i" "tally r st" d1] p by (simp add: tally_failed)
qed


section \<open>The pipeline: running it again\<close>

lemma lookup_folder_append:
  "lookup_folder d n p = Some i \<Longrightarrow> lookup_folder (d @ x) n p = Some i"
  by (auto simp: lookup_folder_def split: list.splits)

lemma lookup_folder_prefix:
  "lookup_folder d n p = Some i \<Longrightarrow> prefix d d' \<Longrightarrow> lookup_folder d' n p = Some i"
  by (auto simp: prefix_def lookup_folder_append)

lemma stored_prefix:
  assumes "stored t period d" and "prefix d d'"
  shows "stored t period d'"
proof -
  obtain q fy where p: "period = (q, fy)" by (cases period)
  from assms(1) p obtain fid qid where l: "lookup_folder d fy DRIVE_FOLDER_ID = Some fid"
      "lookup_folder d q fid = Some qid"
      "filter (file_query (transcript_filename t fy q) qid) d \<noteq> []"
    by (auto simp: stored_def split: option.splits)
  from assms(2) obtain x where x: "d' = d @ x" by (auto simp: prefix_def)
  from l(3) have "filter (file_query (transcript_filename t fy q) qid) d' \<noteq> []"
    unfolding x by simp
  with lookup_folder_prefix[OF l(1) assms(2)] lookup_folder_prefix[OF l(2) assms(2)] p
  show ?thesis by (simp add: stored_def)
qed

lemma get_or_create_folder_lookup:
  "get_or_create_folder lr cr d n p = (Inr i, d') \<Longrightarrow> lookup_folder d' n p = Some i"
  by (auto simp: get_or_create_folder_def lookup_folder_def folder_query_def
           split: option.splits list.splits)

lemma get_or_create_folder_found:
  "lookup_folder d n p = Some i \<Longrightarrow> get_or_create_folder None cr d n p = (Inr i, d)"
  by (auto simp: get_or_create_folder_def lookup_folder_def split: list.splits)

lemma upload_to_drive_file:
  "upload_to_drive lr cr d n p = (Inr r, d') \<Longrightarrow> filter (file_query n p) d' \<noteq> []"
  by (auto simp: upload_to_drive_def file_exists_in_drive_def file_query_def
           split: option.splits if_splits bool.splits)

lemma process_transcript_url:
  assumes "has_url t"
  shows "process_transcript w t d =
     (case resolve_period (clock w) t of
        (q, fy) \<Rightarrow>
          (case get_or_create_folder (fault w ListFY) (fault w CreateFY) d fy DRIVE_FOLDER_ID of
             (Inl e, d1) \<Rightarrow> (Inl e, d1)
           | (Inr fy_folder_id, d1) \<Rightarrow>
               (case get_or_create_folder (fault w ListQ) (fault w CreateQ) d1 q fy_folder_id of
                  (Inl e, d2) \<Rightarrow> (Inl e, d2)
                | (Inr quarter_folder_id, d2) \<Rightarrow>
                    (case file_exists_in_drive (fault w FileExists) d2
                            (transcript_filename t fy q) quarter_folder_id of
                       Inl e \<Rightarrow> (Inl e, d2)
                     | Inr True \<Rightarrow> (Inr Skipped, d2)
                     | Inr False \<Rightarrow>
                         (case fault w Download of
                            Some e \<Rightarrow> (Inl e, d2)
                          | None \<Rightarrow>
                              (case upload_to_drive (fault w UploadExists) (fault w UploadCreate)
                                      d2 (transcript_filename t fy q) quarter_folder_id of
                                 (Inl e, d3) \<Rightarrow> (Inl e, d3)
                               | (Inr _, d3) \<Rightarrow> (Inr Downloaded, d3)))))))"
proof -
  from assms have "\<not> (pdf_url t = None \<or> pdf_url t = Some [])" unfolding has_url_def by blast
  then show ?thesis unfolding process_transcript_def by (rule if_not_P)
qed

lemma process_transcript_has_url:
  assumes "process_transcript w t d = (Inr r, d')" and "r \<noteq> NoUrl"
  shows "has_url t"
proof (rule ccontr)
  assume "\<not> has_url t"
  then have "pdf_url t = None \<or> pdf_url t = Some []" unfolding has_url_def by blast
  then have "process_transcript w t d = (Inr NoUrl, d)"
    unfolding process_transcript_def by (rule if_P)
  with assms show False by simp
qed

lemma process_transcript_stored:
  assumes "process_transcript w t d = (Inr r, d')" and "r \<noteq> NoUrl"
  shows "stored t (resolve_period (clock w) t) d' \<and> has_url t"
proof -
  have u: "has_url t" using assms by (rule process_transcript_has_url)
  note pt = process_transcript_url[OF u, of w d]
  obtain q fy where p: "resolve_period (clock w) t = (q, fy)" by (cases "resolve_period (clock w) t")
  obtain r1 d1 where g1: "get_or_create_folder (fault w ListFY) (fault w CreateFY) d fy DRIVE_FOLDER_ID = (r1, d1)"
    by (cases "get_or_create_folder (fault w ListFY) (fault w CreateFY) d fy DRIVE_FOLDER_ID")
  obtain fid where r1: "r1 = Inr fid"
  proof (cases r1)
    case (Inl e)
    with pt p g1 assms(1) show ?thesis by simp
  qed
  obtain r2 d2 where g2: "get_or_create_folder (fault w ListQ) (fault w CreateQ) d1 q fid = (r2, d2)"
    by (cases "get_or_create_folder (fault w ListQ) (fault w CreateQ) d1 q fid")
  obtain qid where r2: "r2 = Inr qid"
  proof (cases r2)
    case (Inl e)
    with pt p g1 r1 g2 assms(1) show ?thesis by simp
  qed
  let ?fn = "transcript_filename t fy q"
  have l1: "lookup_folder d1 fy DRIVE_FOLDER_ID = Some fid"
    using get_or_create_folder_lookup g1 r1 by simp
  have l2: "lookup_folder d2 q fid = Some qid"
    using get_or_create_folder_lookup g2 r2 by simp
  have p12: "prefix d1 d2" using get_or_create_folder_prefix[OF g2] .
  obtain r3 d3 where g3: "upload_to_drive (fault w UploadExists) (fault w UploadCreate) d2 ?fn qid = (r3, d3)"
    by (cases "upload_to_drive (fault w UploadExists) (fault w UploadCreate) d2 ?fn qid")
  have p23: "prefix d2 d3" using upload_to_drive_prefix[OF g3] .
  note eqs = p g1[unfolded r1] g2[unfolded r2]
  consider (skip) "d' = d2" "filter (file_query ?fn qid) d2 \<noteq> []"
    | (up) x where "d' = d3" "r3 = Inr x"
  proof (cases "file_exists_in_drive (fault w FileExists) d2 ?fn qid")
    case (Inl e)
    then have "process_transcript w t d = (Inl e, d2)" by (simp add: pt eqs)
    with assms(1) show ?thesis by simp
  next
    case (Inr b)
    show ?thesis
    proof (cases b)
      case True
      with Inr have "process_transcript w t d = (Inr Skipped, d2)" by (simp add: pt eqs)
      with assms(1) have "d' = d2" by simp
      moreover from Inr True have "filter (file_query ?fn qid) d2 \<noteq> []"
        by (auto simp: file_exists_in_drive_def split: option.splits)
      ultimately show ?thesis by (rule skip)
    next
      case False
      from Inr False have fe: "file_exists_in_drive (fault w FileExists) d2 ?fn qid = Inr False"
        by simp
      show ?thesis
      proof (cases "fault w Download")
        case (Some e)
        with fe have "process_transcript w t d = (Inl e, d2)" by (simp add: pt eqs)
        with assms(1) show ?thesis by simp
      next
        case None
        show ?thesis
        proof (cases r3)
          case (Inl e)
          with fe None g3 have "process_transcript w t d = (Inl e, d3)" by (simp add: pt eqs)
          with assms(1) show ?thesis by simp
        next
          case (Inr x)
          with fe None g3 have "process_transcript w t d = (Inr Downloaded, d3)"
            by (simp add: pt eqs)
          with assms(1) have "d' = d3" by simp
          then show ?thesis using Inr by (rule up)
        qed
      qed
    qed
  qed
  then have "lookup_folder d' fy DRIVE_FOLDER_ID = Some fid \<and> lookup_folder d' q fid = Some qid
      \<and> filter (file_query ?fn qid) d' \<noteq> []"
  proof cases
    case skip
    from lookup_folder_prefix[OF l1 p12] l2 skip show ?thesis by simp
  next
    case up
    from g3 up(2) have "upload_to_drive (fault w UploadExists) (fault w UploadCreate) d2 ?fn qid
        = (Inr x, d3)" by simp
    then have "filter (file_query ?fn qid) d3 \<noteq> []" by (rule upload_to_drive_file)
    with lookup_folder_prefix[OF lookup_folder_prefix[OF l1 p12] p23]
      lookup_folder_prefix[OF l2 p23] up show ?thesis by simp
  qed
  with p u show ?thesis by (simp add: stored_def)
qed

lemma process_transcript_when_stored:
  assumes "stored t (resolve_period (clock w) t) d" and "has_url t" and "\<forall>c. fault w c = None"
  shows "process_transcript w t d = (Inr Skipped, d)"
proof -
  obtain q fy where p: "resolve_period (clock w) t = (q, fy)" by (cases "resolve_period (clock w) t")
  from assms(1) p obtain fid qid where l: "lookup_folder d fy DRIVE_FOLDER_ID = Some fid"
      "lookup_folder d q fid = Some qid"
      "filter (file_query (transcript_filename t fy q) qid) d \<noteq> []"
    by (auto simp: stored_def split: option.splits)
  have f: "fault w c = None" for c using assms(3) by simp
  have g1: "get_or_create_folder (fault w ListFY) (fault w CreateFY) d fy DRIVE_FOLDER_ID = (Inr fid, d)"
    unfolding f using l(1) by (rule get_or_create_folder_found)
  have g2: "get_or_create_folder (fault w ListQ) (fault w CreateQ) d q fid = (Inr qid, d)"
    unfolding f using l(2) by (rule get_or_create_folder_found)
  have fe: "file_exists_in_drive (fault w FileExists) d (transcript_filename t fy q) qid = Inr True"
    unfolding f using l(3) by (simp add: file_exists_in_drive_def)
  show ?thesis
    by (simp add: process_transcript_url[OF assms(2)] p g1 g2 fe)
qed

lemma process_transcript_no_url:
  assumes "\<not> has_url t"
  shows "process_transcript w t d = (Inr NoUrl, d)"
proof -
  from assms have "pdf_url t = None \<or> pdf_url t = Some []" unfolding has_url_def by blast
  then show ?thesis unfolding process_transcript_def by (rule if_P)
qed

lemma determine_quarter_fy_clock:
  assumes "fiscal_period now' = fiscal_period now"
  shows "determine_quarter_fy now' ds tx = determine_quarter_fy now ds tx"
  unfolding determine_quarter_fy_def assms by (rule refl)

lemma resolve_period_clock:
  assumes "fiscal_period now' = fiscal_period now"
  shows "resolve_period now' t = resolve_period now t"
  unfolding resolve_period_def determine_quarter_fy_clock[OF assms] by (rule refl)


lemma process_transcript_NoUrl_iff:
  "fst (process_transcript w t d) = Inr NoUrl \<longleftrightarrow> \<not> has_url t"
proof
  assume a: "fst (process_transcript w t d) = Inr NoUrl"
  show "\<not> has_url t"
  proof
    assume u: "has_url t"
    have "fst (process_transcript w t d) \<noteq> Inr NoUrl"
      unfolding process_transcript_url[OF u]
      by (simp split: prod.splits sum.splits bool.splits option.splits)
    with a show False by simp
  qed
next
  assume "\<not> has_url t"
  then show "fst (process_transcript w t d) = Inr NoUrl" by (simp add: process_transcript_no_url)
qed

lemma run_results_NoUrl:
  "k < length ts \<Longrightarrow> (run_results w i ts d ! k = Inr NoUrl) = (\<not> has_url (ts ! k))"
proof (induction ts arbitrary: i d k)
  case Nil
  then show ?case by simp
next
  case (Cons t ts)
  obtain r d1 where p: "process_transcript (w i) t d = (r, d1)"
    by (cases "process_transcript (w i) t d")
  show ?case
  proof (cases k)
    case 0
    with p process_transcript_NoUrl_iff[of "w i" t d] show ?thesis by simp
  next
    case (Suc k')
    with Cons.prems have "k' < length ts" by simp
    from Cons.IH[OF this, of "Suc i" d1] p Suc show ?thesis by simp
  qed
qed

lemma run_first_stored:
  assumes "run_transcripts w i ts st d = (st', dfin)" and "k < length ts"
    and "run_results w i ts d ! k = Inr r" and "r \<noteq> NoUrl"
  shows "stored (ts ! k) (resolve_period (clock (w (i + k))) (ts ! k)) dfin \<and> has_url (ts ! k)"
  using assms
proof (induction ts arbitrary: i st d k)
  case Nil
  then show ?case by simp
next
  case (Cons t ts)
  obtain r0 d1 where p: "process_transcript (w i) t d = (r0, d1)"
    by (cases "process_transcript (w i) t d")
  with Cons.prems(1) have run: "run_transcripts w (Suc i) ts (tally r0 st) d1 = (st', dfin)" by simp
  show ?case
  proof (cases k)
    case 0
    with Cons.prems(3) p have "r0 = Inr r" by simp
    with p have "process_transcript (w i) t d = (Inr r, d1)" by simp
    from process_transcript_stored[OF this Cons.prems(4)]
    have s: "stored t (resolve_period (clock (w i)) t) d1" and u: "has_url t" by simp_all
    from stored_prefix[OF s run_transcripts_prefix[OF run]] u 0 show ?thesis by simp
  next
    case (Suc k')
    with Cons.prems(2) have k': "k' < length ts" by simp
    from Cons.prems(3) p Suc have "run_results w (Suc i) ts d1 ! k' = Inr r" by simp
    from Cons.IH[OF run k' this Cons.prems(4)] Suc show ?thesis by simp
  qed
qed

lemma run_second_skips:
  assumes "no_faults w" and "prefix D D'" and "k < length ts"
    and "stored (ts ! k) (resolve_period (clock (w (i + k))) (ts ! k)) D" and "has_url (ts ! k)"
  shows "run_results w i ts D' ! k = Inr Skipped"
  using assms(2-)
proof (induction ts arbitrary: i D' k)
  case Nil
  then show ?case by simp
next
  case (Cons t ts)
  obtain r0 d1 where p: "process_transcript (w i) t D' = (r0, d1)"
    by (cases "process_transcript (w i) t D'")
  have f: "\<forall>c. fault (w i) c = None" using assms(1) by (simp add: no_faults_def)
  show ?case
  proof (cases k)
    case 0
    with Cons.prems have "stored t (resolve_period (clock (w i)) t) D" "has_url t" by simp_all
    from process_transcript_when_stored[OF stored_prefix[OF this(1) Cons.prems(1)] this(2) f] 0
    show ?thesis by simp
  next
    case (Suc k')
    with Cons.prems(2) have k': "k' < length ts" by simp
    have pre: "prefix D d1"
      using Cons.prems(1) process_transcript_prefix[OF p] by (rule prefix_order.order_trans)
    from Cons.prems(3,4) Suc
    have "stored (ts ! k') (resolve_period (clock (w (Suc i + k'))) (ts ! k')) D" "has_url (ts ! k')"
      by simp_all
    from Cons.IH[OF pre k' this] p Suc show ?thesis by simp
  qed
qed

lemma run_second_unchanged:
  assumes "no_faults w"
    and "\<forall>k<length ts. has_url (ts ! k) \<longrightarrow>
           stored (ts ! k) (resolve_period (clock (w (i + k))) (ts ! k)) D"
  shows "run_transcripts w i ts st D
           = (st\<lparr>skipped := skipped st + length (filter has_url ts)\<rparr>, D)"
  using assms(2)
proof (induction ts arbitrary: i st)
  case Nil
  then show ?case by simp
next
  case (Cons t ts)
  have f: "\<forall>c. fault (w i) c = None" using assms(1) by (simp add: no_faults_def)
  have rest: "\<forall>k<length ts. has_url (ts ! k) \<longrightarrow>
      stored (ts ! k) (resolve_period (clock (w (Suc i + k))) (ts ! k)) D"
  proof (intro allI impI)
    fix k assume "k < length ts" "has_url (ts ! k)"
    with Cons.prems[rule_format, of "Suc k"] show
      "stored (ts ! k) (resolve_period (clock (w (Suc i + k))) (ts ! k)) D" by simp
  qed
  show ?case
  proof (cases "has_url t")
    case True
    with Cons.prems[rule_format, of 0] have "stored t (resolve_period (clock (w i)) t) D" by simp
    from process_transcript_when_stored[OF this True f] Cons.IH[OF rest] True
    show ?thesis by simp
  next
    case False
    from process_transcript_no_url[OF False] Cons.IH[OF rest] False
    show ?thesis by simp
  qed
qed

lemma tally_total:
  "downloaded (tally r st) + skipped (tally r st) + failed (tally r st)
     = downloaded st + skipped st + failed st + (if r = Inr NoUrl then 0 else 1)"
  by (cases "(r, st)" rule: tally.cases) auto

lemma run_transcripts_total:
  "downloaded (fst (run_transcripts w i ts st d)) + skipped (fst (run_transcripts w i ts st d))
     + failed (fst (run_transcripts w i ts st d))
   = downloaded st + skipped st + failed st + length (filter has_url ts)"
proof (induction ts arbitrary: i st d)
  case Nil
  then show ?case by simp
next
  case (Cons t ts)
  obtain r d1 where p: "process_transcript (w i) t d = (r, d1)"
    by (cases "process_transcript (w i) t d")
  from process_transcript_NoUrl_iff[of "w i" t d] p have "(r = Inr NoUrl) = (\<not> has_url t)" by simp
  with Cons.IH[of "Suc i" "tally r st" d1] p tally_total[of r st] show ?case by simp
qed


lemma get_or_create_folder_no_duplicate:
  assumes "no_duplicate_folders d" and "get_or_create_folder lr cr d n p = (r, d')"
  shows "no_duplicate_folders d'"
proof (cases "d' = d")
  case True
  with assms(1) show ?thesis by simp
next
  case False
  with assms(2) have e: "filter (folder_query n p) d = []"
    and d': "d' = d @ [\<lparr>eid = fresh_id d, ename = n, eparent = p, is_folder = True\<rparr>]"
    by (auto simp: get_or_create_folder_def split: option.splits list.splits)
  show ?thesis
    unfolding no_duplicate_folders_def
  proof (intro allI)
    fix n' p'
    show "length (filter (folder_query n' p') d') \<le> 1"
    proof (cases "n' = n \<and> p' = p")
      case True
      with e d' show ?thesis by simp
    next
      case False
      then have "\<not> folder_query n' p' \<lparr>eid = fresh_id d, ename = n, eparent = p, is_folder = True\<rparr>"
        by (auto simp: folder_query_def)
      with assms(1) d' show ?thesis by (simp add: no_duplicate_folders_def)
    qed
  qed
qed

lemma get_or_create_folder_existing:
  "filter (folder_query n p) d \<noteq> [] \<Longrightarrow> snd (get_or_create_folder lr cr d n p) = d"
  by (auto simp: get_or_create_folder_def split: option.splits list.splits)

lemma upload_to_drive_no_duplicate:
  assumes "no_duplicate_folders d" and "upload_to_drive lr cr d n p = (r, d')"
  shows "no_duplicate_folders d'"
proof (cases "d' = d")
  case True
  with assms(1) show ?thesis by simp
next
  case False
  with assms(2) have d': "d' = d @ [\<lparr>eid = fresh_id d, ename = n, eparent = p, is_folder = False\<rparr>]"
    by (auto simp: upload_to_drive_def split: option.splits sum.splits bool.splits)
  have "\<not> folder_query n' p' \<lparr>eid = fresh_id d, ename = n, eparent = p, is_folder = False\<rparr>" for n' p'
    by (simp add: folder_query_def)
  with assms(1) d' show ?thesis by (simp add: no_duplicate_folders_def)
qed

lemma process_transcript_no_duplicate:
  assumes "no_duplicate_folders d" and "process_transcript w t d = (r, d')"
  shows "no_duplicate_folders d'"
proof (cases "has_url t")
  case False
  from process_transcript_no_url[OF False, of w d] assms show ?thesis by simp
next
  case u: True
  note pt = process_transcript_url[OF u, of w d]
  obtain q fy where p: "resolve_period (clock w) t = (q, fy)" by (cases "resolve_period (clock w) t")
  obtain r1 d1 where g1: "get_or_create_folder (fault w ListFY) (fault w CreateFY) d fy DRIVE_FOLDER_ID = (r1, d1)"
    by (cases "get_or_create_folder (fault w ListFY) (fault w CreateFY) d fy DRIVE_FOLDER_ID")
  note n1 = get_or_create_folder_no_duplicate[OF assms(1) g1]
  show ?thesis
  proof (cases r1)
    case (Inl e)
    with pt p g1 assms(2) n1 show ?thesis by simp
  next
    case (Inr fid)
    obtain r2 d2 where g2: "get_or_create_folder (fault w ListQ) (fault w CreateQ) d1 q fid = (r2, d2)"
      by (cases "get_or_create_folder (fault w ListQ) (fault w CreateQ) d1 q fid")
    note n2 = get_or_create_folder_no_duplicate[OF n1 g2]
    show ?thesis
    proof (cases r2)
      case (Inl e)
      with pt p g1 g2 assms(2) n2 \<open>r1 = Inr fid\<close> show ?thesis by simp
    next
      case (Inr qid)
      obtain r3 d3 where g3: "upload_to_drive (fault w UploadExists) (fault w UploadCreate) d2
          (transcript_filename t fy q) qid = (r3, d3)"
        by (cases "upload_to_drive (fault w UploadExists) (fault w UploadCreate) d2
          (transcript_filename t fy q) qid")
      note n3 = upload_to_drive_no_duplicate[OF n2 g3]
      note eqs = p g1[unfolded \<open>r1 = Inr fid\<close>] g2[unfolded Inr]
      have "snd (process_transcript w t d) = d2 \<or> snd (process_transcript w t d) = d3"
      proof (cases "file_exists_in_drive (fault w FileExists) d2 (transcript_filename t fy q) qid")
        case (Inl e)
        then show ?thesis by (simp add: pt eqs)
      next
        case fe: (Inr b)
        show ?thesis
        proof (cases "fault w Download")
          case None
          with fe g3 show ?thesis by (cases b; cases r3) (simp_all add: pt eqs)
        next
          case (Some e)
          with fe show ?thesis by (cases b) (simp_all add: pt eqs)
        qed
      qed
      with assms(2) n2 n3 show ?thesis by auto
    qed
  qed
qed

lemma run_transcripts_no_duplicate:
  assumes "no_duplicate_folders d" and "run_transcripts w i ts st d = (st', d')"
  shows "no_duplicate_folders d'"
  using assms
proof (induction ts arbitrary: i st d)
  case Nil
  then show ?case by simp
next
  case (Cons t ts)
  obtain r d1 where p: "process_transcript (w i) t d = (r, d1)"
    by (cases "process_transcript (w i) t d")
  with Cons.prems(2) have "run_transcripts w (Suc i) ts (tally r st) d1 = (st', d')" by simp
  from Cons.IH[OF process_transcript_no_duplicate[OF Cons.prems(1) p] this] show ?case .
qed


text \<open>A descriptor with no period in its text or date is filed under the period of the
  clock. Run on 31 March 2025 and again on 1 April 2025, the pipeline creates the folders
  FY2026 and Q1 in the second run and uploads the file a second time.\<close>

theorem C1_clock_counterexample:
  "download_and_upload_transcripts world_march [untagged_transcript] []
     = (\<lparr>downloaded = 1, skipped = 0, failed = 0\<rparr>, store_after_march)
   \<and> download_and_upload_transcripts world_april [untagged_transcript] store_after_march
     = (\<lparr>downloaded = 1, skipped = 0, failed = 0\<rparr>,
        store_after_march @
        [\<lparr>eid = 4, ename = ''FY2026'', eparent = 0, is_folder = True\<rparr>,
         \<lparr>eid = 5, ename = ''Q1'', eparent = 4, is_folder = True\<rparr>,
         \<lparr>eid = 6, ename = ''Acme - FY2026 Q1 Transcript.pdf'', eparent = 5, is_folder = False\<rparr>])"
  by code_simp


text \<open>
  Claim C1, as the code has it. Let the second run see, for each descriptor, a clock in the
  same fiscal period as the first run did, and let no call of a collaborator raise in it.
  Then every descriptor that was uploaded or skipped in the first run is skipped in the
  second; when nothing failed in the first run, the second run uploads nothing, counts every
  descriptor with a URL as skipped and leaves the store as it was. A store without duplicate
  folders stays so through a run, \<open>get_or_create_folder\<close> creates nothing where a
  folder of the name exists under the parent, and it keeps a store free of duplicates.
\<close>

theorem C1_rerun_skips:
  assumes "same_periods w1 w2" and "no_faults w2"
    and "download_and_upload_transcripts w1 ts d = (st1, d1)"
  shows "(\<forall>k<length ts. run_results w1 1 ts d ! k \<in> {Inr Downloaded, Inr Skipped}
            \<longrightarrow> run_results w2 1 ts d1 ! k = Inr Skipped)
       \<and> (failed st1 = 0 \<longrightarrow>
            download_and_upload_transcripts w2 ts d1
              = (\<lparr>downloaded = 0, skipped = downloaded st1 + skipped st1, failed = 0\<rparr>, d1))
       \<and> (no_duplicate_folders d \<longrightarrow> no_duplicate_folders d1)
       \<and> (filter (folder_query n p) D \<noteq> [] \<longrightarrow> snd (get_or_create_folder lr cr D n p) = D)
       \<and> (no_duplicate_folders D \<longrightarrow> no_duplicate_folders (snd (get_or_create_folder lr cr D n p)))"
proof -
  let ?z = "\<lparr>downloaded = 0, skipped = 0, failed = 0\<rparr>"
  from assms(3) have run: "run_transcripts w1 1 ts ?z d = (st1, d1)"
    by (simp add: download_and_upload_transcripts_def)
  have per: "resolve_period (clock (w2 j)) t = resolve_period (clock (w1 j)) t" for j t
    using assms(1) by (intro resolve_period_clock) (simp add: same_periods_def)
  have st: "stored (ts ! k) (resolve_period (clock (w2 (1 + k))) (ts ! k)) d1 \<and> has_url (ts ! k)"
    if "k < length ts" "run_results w1 1 ts d ! k = Inr r" "r \<noteq> NoUrl" for k r
    using run_first_stored[OF run that] unfolding per .
  have a: "run_results w2 1 ts d1 ! k = Inr Skipped"
    if "k < length ts" "run_results w1 1 ts d ! k \<in> {Inr Downloaded, Inr Skipped}" for k
  proof -
    from that(2) obtain r where r: "run_results w1 1 ts d ! k = Inr r" "r \<noteq> NoUrl" by auto
    from st[OF that(1) r] have "stored (ts ! k) (resolve_period (clock (w2 (1 + k))) (ts ! k)) d1"
      and "has_url (ts ! k)" by simp_all
    from run_second_skips[OF assms(2) prefix_order.order_refl that(1) this] show ?thesis .
  qed
  have b: "download_and_upload_transcripts w2 ts d1
      = (\<lparr>downloaded = 0, skipped = downloaded st1 + skipped st1, failed = 0\<rparr>, d1)"
    if f0: "failed st1 = 0"
  proof -
    from run_transcripts_failed[of w1 1 ts ?z d] run f0
    have "filter isl (run_results w1 1 ts d) = []" by simp
    then have noexn: "\<not> isl x" if "x \<in> set (run_results w1 1 ts d)" for x
      using that by (auto simp: filter_empty_conv)
    have all: "\<forall>k<length ts. has_url (ts ! k) \<longrightarrow>
        stored (ts ! k) (resolve_period (clock (w2 (1 + k))) (ts ! k)) d1"
    proof (intro allI impI)
      fix k assume k: "k < length ts" and u: "has_url (ts ! k)"
      from k have "run_results w1 1 ts d ! k \<in> set (run_results w1 1 ts d)"
        by (simp add: run_results_length)
      from noexn[OF this] obtain r where r: "run_results w1 1 ts d ! k = Inr r"
        by (cases "run_results w1 1 ts d ! k") auto
      with run_results_NoUrl[OF k, of w1 1 d] u have "r \<noteq> NoUrl" by auto
      from st[OF k r this] show "stored (ts ! k) (resolve_period (clock (w2 (1 + k))) (ts ! k)) d1"
        by simp
    qed
    from run_transcripts_total[of w1 1 ts ?z d] run f0
    have "downloaded st1 + skipped st1 = length (filter has_url ts)" by simp
    with run_second_unchanged[OF assms(2) all, of ?z] show ?thesis
      by (simp add: download_and_upload_transcripts_def)
  qed
  have c: "no_duplicate_folders d1" if "no_duplicate_folders d"
    using run_transcripts_no_duplicate[OF that run] .
  have e: "no_duplicate_folders (snd (get_or_create_folder lr cr D n p))" if "no_duplicate_folders D"
    using get_or_create_folder_no_duplicate[OF that, of lr cr n p]
    by (cases "get_or_create_folder lr cr D n p") auto
  from a b c e get_or_create_folder_existing[of n p D lr cr] show ?thesis by blast
qed

lemma march_run:
  "download_and_upload_transcripts world_march [untagged_transcript, untagged_transcript] []
     = (\<lparr>downloaded = 1, skipped = 1, failed = 0\<rparr>, store_after_march)"
  by code_simp

theorem C1_rerun_skips_witness:
  "same_periods world_march world_march \<and> no_faults world_march
   \<and> download_and_upload_transcripts world_march [untagged_transcript, untagged_transcript] []
       = (\<lparr>downloaded = 1, skipped = 1, failed = 0\<rparr>, store_after_march)
   \<and> download_and_upload_transcripts world_march [untagged_transcript, untagged_transcript]
         store_after_march
       = (\<lparr>downloaded = 0, skipped = 2, failed = 0\<rparr>, store_after_march)"
proof -
  have s: "same_periods world_march world_march" by (simp add: same_periods_def)
  have f: "no_faults world_march" by (simp add: no_faults_def world_march_def)
  from C1_rerun_skips[OF s f march_run] s f march_run show ?thesis by simp
qed


section \<open>The pipeline: the call that raises\<close>

lemma get_or_create_folder_eval:
  "get_or_create_folder lr cr d n p =
     (case lr of
        Some e \<Rightarrow> (Inl e, d)
      | None \<Rightarrow>
          (case lookup_folder d n p of
             Some i \<Rightarrow> (Inr i, d)
           | None \<Rightarrow>
               (case cr of
                  Some e \<Rightarrow> (Inl e, d)
                | None \<Rightarrow> (Inr (folder_id d n p), store_with_folder d n p))))"
  by (simp add: get_or_create_folder_def lookup_folder_def folder_id_def store_with_folder_def
           split: option.splits list.splits)

lemma first_fault_Cons:
  "first_fault w (c # cs) = (case fault w c of Some e \<Rightarrow> Some (c, e) | None \<Rightarrow> first_fault w cs)"
  by (simp add: first_fault_def List.map_filter_simps split: option.splits)

lemma first_fault_Nil: "first_fault w [] = None"
  by (simp add: first_fault_def List.map_filter_simps)


lemma first_fault_append:
  "first_fault w (xs @ ys) = (case first_fault w xs of Some x \<Rightarrow> Some x | None \<Rightarrow> first_fault w ys)"
proof (induction xs)
  case Nil
  then show ?case by (simp add: first_fault_Nil)
next
  case (Cons c cs)
  then show ?case by (simp add: first_fault_Cons split: option.splits)
qed

lemma folder_calls_fault:
  assumes "first_fault w (lc # (if lookup_folder d n p = None then [cc] else [])) = Some (c, e)"
  shows "get_or_create_folder (fault w lc) (fault w cc) d n p = (Inl e, d) \<and> (c = lc \<or> c = cc)"
  using assms
  by (cases "fault w lc"; cases "lookup_folder d n p"; cases "fault w cc")
     (simp_all add: first_fault_Cons first_fault_Nil get_or_create_folder_eval)

lemma folder_calls_ok:
  assumes "first_fault w (lc # (if lookup_folder d n p = None then [cc] else [])) = None"
  shows "get_or_create_folder (fault w lc) (fault w cc) d n p
           = (Inr (folder_id d n p), store_with_folder d n p)"
  using assms
  by (cases "fault w lc"; cases "lookup_folder d n p"; cases "fault w cc")
     (simp_all add: first_fault_Cons first_fault_Nil get_or_create_folder_eval
        folder_id_def store_with_folder_def)

lemma file_calls_eval:
  "(case file_exists_in_drive (fault w FileExists) d2 fn qid of
      Inl e \<Rightarrow> (Inl e, d2)
    | Inr True \<Rightarrow> (Inr Skipped, d2)
    | Inr False \<Rightarrow>
        (case fault w Download of
           Some e \<Rightarrow> (Inl e, d2)
         | None \<Rightarrow>
             (case upload_to_drive (fault w UploadExists) (fault w UploadCreate) d2 fn qid of
                (Inl e, d3) \<Rightarrow> (Inl e, d3)
              | (Inr _, d3) \<Rightarrow> (Inr Downloaded, d3))))
   = (case first_fault w (file_calls (filter (file_query fn qid) d2 \<noteq> [])) of
        Some (c, e) \<Rightarrow> (Inl e, d2)
      | None \<Rightarrow>
          if filter (file_query fn qid) d2 \<noteq> [] then (Inr Skipped, d2)
          else (Inr Downloaded,
                d2 @ [\<lparr>eid = fresh_id d2, ename = fn, eparent = qid, is_folder = False\<rparr>]))"
  by (cases "fault w FileExists"; cases "filter (file_query fn qid) d2 = []";
      cases "fault w Download"; cases "fault w UploadExists"; cases "fault w UploadCreate")
     (simp_all add: file_calls_def first_fault_Cons first_fault_Nil file_exists_in_drive_def
        upload_to_drive_def)


lemma first_fault_Some:
  "first_fault w cs = Some (c, e) \<Longrightarrow> c \<in> set cs \<and> fault w c = Some e"
  by (induction cs) (auto simp: first_fault_Cons first_fault_Nil split: option.splits)

lemma calls_made_split:
  "calls_made t (q, fy) d =
     (ListFY # (if lookup_folder d fy DRIVE_FOLDER_ID = None then [CreateFY] else []))
     @ (ListQ # (if lookup_folder (store_with_folder d fy DRIVE_FOLDER_ID) q
                      (folder_id d fy DRIVE_FOLDER_ID) = None then [CreateQ] else []))
     @ file_calls (file_present t (q, fy) d)"
  by (simp add: calls_made_def file_calls_def)

lemma process_transcript_first_fault:
  assumes u: "has_url t" and p: "resolve_period (clock w) t = (q, fy)"
  shows "process_transcript w t d =
     (case first_fault w (calls_made t (q, fy) d) of
        Some (c, e) \<Rightarrow> (Inl e, store_before c (q, fy) d)
      | None \<Rightarrow>
          if file_present t (q, fy) d then (Inr Skipped, quarter_store (q, fy) d)
          else (Inr Downloaded,
                quarter_store (q, fy) d
                @ [\<lparr>eid = fresh_id (quarter_store (q, fy) d), ename = transcript_filename t fy q,
                      eparent = quarter_id (q, fy) d, is_folder = False\<rparr>]))"
proof -
  note pt = process_transcript_url[OF u, of w d]
  let ?s1 = "ListFY # (if lookup_folder d fy DRIVE_FOLDER_ID = None then [CreateFY] else [])"
  let ?d1 = "store_with_folder d fy DRIVE_FOLDER_ID"
  let ?fid = "folder_id d fy DRIVE_FOLDER_ID"
  let ?s2 = "ListQ # (if lookup_folder ?d1 q ?fid = None then [CreateQ] else [])"
  let ?d2 = "quarter_store (q, fy) d"
  let ?qid = "quarter_id (q, fy) d"
  let ?s3 = "file_calls (file_present t (q, fy) d)"
  have cm: "calls_made t (q, fy) d = ?s1 @ ?s2 @ ?s3" by (rule calls_made_split)
  show ?thesis
  proof (cases "first_fault w ?s1")
    case (Some ce)
    obtain c e where ce: "ce = (c, e)" by (cases ce)
    from folder_calls_fault[OF Some[unfolded ce]]
    have g1: "get_or_create_folder (fault w ListFY) (fault w CreateFY) d fy DRIVE_FOLDER_ID = (Inl e, d)"
      and c: "c = ListFY \<or> c = CreateFY" by simp_all
    have "process_transcript w t d = (Inl e, d)" by (simp add: pt p g1)
    moreover have "first_fault w (calls_made t (q, fy) d) = Some (c, e)"
      unfolding cm first_fault_append[of w ?s1] Some ce by simp
    moreover from c have "store_before c (q, fy) d = d" by (auto simp: store_before_def)
    ultimately show ?thesis by simp
  next
    case n1: None
    note g1 = folder_calls_ok[OF n1]
    show ?thesis
    proof (cases "first_fault w ?s2")
      case (Some ce)
      obtain c e where ce: "ce = (c, e)" by (cases ce)
      from folder_calls_fault[OF Some[unfolded ce]]
      have g2: "get_or_create_folder (fault w ListQ) (fault w CreateQ) ?d1 q ?fid = (Inl e, ?d1)"
        and c: "c = ListQ \<or> c = CreateQ" by simp_all
      have "process_transcript w t d = (Inl e, ?d1)" by (simp add: pt p g1 g2)
      moreover have "first_fault w (calls_made t (q, fy) d) = Some (c, e)"
        unfolding cm first_fault_append[of w ?s1] n1 first_fault_append[of w ?s2] Some ce by simp
      moreover from c have "store_before c (q, fy) d = ?d1" by (auto simp: store_before_def)
      ultimately show ?thesis by simp
    next
      case n2: None
      from folder_calls_ok[OF n2]
      have g2: "get_or_create_folder (fault w ListQ) (fault w CreateQ) ?d1 q ?fid = (Inr ?qid, ?d2)"
        by (simp add: quarter_id_def quarter_store_def)
      have fp: "file_present t (q, fy) d
          = (filter (file_query (transcript_filename t fy q) ?qid) ?d2 \<noteq> [])"
        by (simp add: file_present_def)
      have ff: "first_fault w (calls_made t (q, fy) d) = first_fault w ?s3"
        unfolding cm first_fault_append[of w ?s1] n1 first_fault_append[of w ?s2] n2 by simp
      have body: "process_transcript w t d =
          (case first_fault w ?s3 of
             Some (c, e) \<Rightarrow> (Inl e, ?d2)
           | None \<Rightarrow>
               if file_present t (q, fy) d then (Inr Skipped, ?d2)
               else (Inr Downloaded,
                     ?d2 @ [\<lparr>eid = fresh_id ?d2, ename = transcript_filename t fy q,
                              eparent = ?qid, is_folder = False\<rparr>]))"
        unfolding fp by (simp add: pt p g1 g2 file_calls_eval)
      show ?thesis
      proof (cases "first_fault w ?s3")
        case None
        with body ff show ?thesis by simp
      next
        case (Some ce)
        obtain c e where ce: "ce = (c, e)" by (cases ce)
        from first_fault_Some[OF Some[unfolded ce]]
        have "c \<in> {FileExists, Download, UploadExists, UploadCreate}"
          by (auto simp: file_calls_def split: if_splits)
        then have "store_before c (q, fy) d = ?d2" by (auto simp: store_before_def)
        with body ff Some ce show ?thesis by simp
      qed
    qed
  qed
qed


lemma lookup_store_with_folder:
  "lookup_folder (store_with_folder d n p) n p = Some (folder_id d n p)"
  by (cases "lookup_folder d n p")
     (auto simp: store_with_folder_def folder_id_def lookup_folder_def folder_query_def
           split: list.splits)

lemma store_with_folder_prefix: "prefix d (store_with_folder d n p)"
  by (simp add: store_with_folder_def)

lemma store_before_prefix: "prefix d (store_before c period d)"
proof -
  obtain q fy where p: "period = (q, fy)" by (cases period)
  have "prefix d (store_with_folder d fy DRIVE_FOLDER_ID)" by (rule store_with_folder_prefix)
  moreover have "prefix (store_with_folder d fy DRIVE_FOLDER_ID) (quarter_store (q, fy) d)"
    by (simp add: quarter_store_def store_with_folder_prefix)
  ultimately show ?thesis
    unfolding p store_before_def by (auto intro: prefix_order.order_trans)
qed

lemma store_before_fy_folder:
  assumes "c \<noteq> ListFY" "c \<noteq> CreateFY"
  shows "lookup_folder (store_before c (q, fy) d) fy DRIVE_FOLDER_ID
           = Some (folder_id d fy DRIVE_FOLDER_ID)"
proof -
  note l = lookup_store_with_folder[of d fy DRIVE_FOLDER_ID]
  have "prefix (store_with_folder d fy DRIVE_FOLDER_ID) (quarter_store (q, fy) d)"
    by (simp add: quarter_store_def store_with_folder_prefix)
  from lookup_folder_prefix[OF l this] l assms show ?thesis
    by (simp add: store_before_def)
qed

lemma store_before_quarter_folder:
  assumes "c \<notin> {ListFY, CreateFY, ListQ, CreateQ}"
  shows "lookup_folder (store_before c (q, fy) d) q (folder_id d fy DRIVE_FOLDER_ID)
           = Some (quarter_id (q, fy) d)"
  using assms
  by (simp add: store_before_def quarter_store_def quarter_id_def lookup_store_with_folder)

text \<open>The body fails for a descriptor with a URL exactly when one of its calls raises.\<close>

lemma process_transcript_fails_iff:
  assumes "has_url t"
  shows "isl (fst (process_transcript w t d))
           = (first_fault w (calls_made t (resolve_period (clock w) t) d) \<noteq> None)"
proof -
  obtain q fy where p: "resolve_period (clock w) t = (q, fy)" by (cases "resolve_period (clock w) t")
  show ?thesis
    unfolding p process_transcript_first_fault[OF assms p]
    by (simp split: option.splits prod.splits)
qed

text \<open>
  Claim C9. Take a descriptor with a URL and the first call of its processing that raises,
  whichever it is: a listing or a creation of a folder, the existence check, the download,
  or a call of the upload. Then the body of the loop ends with that exception, in the store
  as it was at the moment of the call; the run goes on with the next descriptor in that
  store, with the failed counter one higher and the other counters as they were. Nothing is
  rolled back: the store before the descriptor is a prefix of that store, which is a prefix
  of the store at the end of the run, and the folders that the earlier calls found or
  created are in it. Every descriptor of the list gets a result, and the failed counter
  counts the exceptions.
\<close>

theorem C9_failure_is_counted:
  assumes "has_url t" and "resolve_period (clock (world i)) t = (q, fy)"
    and "first_fault (world i) (calls_made t (q, fy) d) = Some (c, e)"
  shows "fault (world i) c = Some e
       \<and> process_transcript (world i) t d = (Inl e, store_before c (q, fy) d)
       \<and> run_transcripts world i (t # ts) st d
           = run_transcripts world (Suc i) ts (st\<lparr>failed := failed st + 1\<rparr>)
               (store_before c (q, fy) d)
       \<and> run_results world i (t # ts) d
           = Inl e # run_results world (Suc i) ts (store_before c (q, fy) d)
       \<and> prefix d (store_before c (q, fy) d)
       \<and> prefix (store_before c (q, fy) d) (snd (run_transcripts world i (t # ts) st d))
       \<and> (c \<notin> {ListFY, CreateFY} \<longrightarrow>
            lookup_folder (store_before c (q, fy) d) fy DRIVE_FOLDER_ID
              = Some (folder_id d fy DRIVE_FOLDER_ID))
       \<and> (c \<notin> {ListFY, CreateFY, ListQ, CreateQ} \<longrightarrow>
            lookup_folder (store_before c (q, fy) d) q (folder_id d fy DRIVE_FOLDER_ID)
              = Some (quarter_id (q, fy) d))
       \<and> length (run_results world i (t # ts) d) = length (t # ts)
       \<and> failed (fst (run_transcripts world i (t # ts) st d))
           = failed st + length (filter isl (run_results world i (t # ts) d))"
proof -
  let ?d' = "store_before c (q, fy) d"
  have f: "fault (world i) c = Some e" using first_fault_Some[OF assms(3)] by simp
  have pt: "process_transcript (world i) t d = (Inl e, ?d')"
    using process_transcript_first_fault[OF assms(1,2), of d] assms(3) by simp
  have a: "run_transcripts world i (t # ts) st d
      = run_transcripts world (Suc i) ts (st\<lparr>failed := failed st + 1\<rparr>) ?d'"
    using pt by simp
  have b: "run_results world i (t # ts) d = Inl e # run_results world (Suc i) ts ?d'"
    using pt by simp
  have "prefix ?d' (snd (run_transcripts world (Suc i) ts (st\<lparr>failed := failed st + 1\<rparr>) ?d'))"
    using run_transcripts_prefix[of world "Suc i" ts "st\<lparr>failed := failed st + 1\<rparr>" ?d']
    by (cases "run_transcripts world (Suc i) ts (st\<lparr>failed := failed st + 1\<rparr>) ?d'") auto
  then have d: "prefix ?d' (snd (run_transcripts world i (t # ts) st d))" unfolding a .
  have g: "c \<notin> {ListFY, CreateFY} \<longrightarrow>
      lookup_folder ?d' fy DRIVE_FOLDER_ID = Some (folder_id d fy DRIVE_FOLDER_ID)"
    using store_before_fy_folder[of c q fy d] by simp
  have h: "c \<notin> {ListFY, CreateFY, ListQ, CreateQ} \<longrightarrow>
      lookup_folder ?d' q (folder_id d fy DRIVE_FOLDER_ID) = Some (quarter_id (q, fy) d)"
    using store_before_quarter_folder[of c q fy d] by simp
  show ?thesis
    using f pt a b d g h store_before_prefix[of d c "(q, fy)"]
      run_results_length[of world i "t # ts" d] run_transcripts_failed[of world i "t # ts" st d]
    by blast
qed

lemma acme_has_url: "has_url acme_transcript"
  by (simp add: has_url_def acme_transcript_def)

lemma acme_period_fails: "resolve_period (clock (download_fails 1)) acme_transcript = (''Q2'', ''FY24'')"
  by code_simp

lemma acme_first_fault:
  "first_fault (download_fails 1) (calls_made acme_transcript (''Q2'', ''FY24'') [])
     = Some (Download, TransportError)"
  by code_simp

lemma acme_store_before:
  "store_before Download (''Q2'', ''FY24'') []
     = [\<lparr>eid = 1, ename = ''FY24'', eparent = 0, is_folder = True\<rparr>,
        \<lparr>eid = 2, ename = ''Q2'', eparent = 1, is_folder = True\<rparr>]"
  by code_simp

lemma acme_second_time:
  "run_transcripts download_fails 2 [acme_transcript] \<lparr>downloaded = 0, skipped = 0, failed = 1\<rparr>
        [\<lparr>eid = 1, ename = ''FY24'', eparent = 0, is_folder = True\<rparr>,
         \<lparr>eid = 2, ename = ''Q2'', eparent = 1, is_folder = True\<rparr>]
     = (\<lparr>downloaded = 1, skipped = 0, failed = 1\<rparr>,
        [\<lparr>eid = 1, ename = ''FY24'', eparent = 0, is_folder = True\<rparr>,
         \<lparr>eid = 2, ename = ''Q2'', eparent = 1, is_folder = True\<rparr>,
         \<lparr>eid = 3, ename = ''Acme Corp - FY24 Q2 Transcript.pdf'', eparent = 2, is_folder = False\<rparr>])"
  by code_simp

theorem C9_failure_is_counted_witness:
  "has_url acme_transcript
   \<and> first_fault (download_fails 1) (calls_made acme_transcript (''Q2'', ''FY24'') [])
       = Some (Download, TransportError)
   \<and> process_transcript (download_fails 1) acme_transcript []
       = (Inl TransportError,
          [\<lparr>eid = 1, ename = ''FY24'', eparent = 0, is_folder = True\<rparr>,
           \<lparr>eid = 2, ename = ''Q2'', eparent = 1, is_folder = True\<rparr>])
   \<and> download_and_upload_transcripts download_fails [acme_transcript, acme_transcript] []
       = (\<lparr>downloaded = 1, skipped = 0, failed = 1\<rparr>,
          [\<lparr>eid = 1, ename = ''FY24'', eparent = 0, is_folder = True\<rparr>,
           \<lparr>eid = 2, ename = ''Q2'', eparent = 1, is_folder = True\<rparr>,
           \<lparr>eid = 3, ename = ''Acme Corp - FY24 Q2 Transcript.pdf'', eparent = 2, is_folder = False\<rparr>])"
proof -
  note w = C9_failure_is_counted[where world = download_fails and i = 1
      and ts = "[acme_transcript]" and st = "\<lparr>downloaded = 0, skipped = 0, failed = 0\<rparr>",
      OF acme_has_url acme_period_fails acme_first_fault, unfolded acme_store_before]
  from w have p: "process_transcript (download_fails 1) acme_transcript []
       = (Inl TransportError,
          [\<lparr>eid = 1, ename = ''FY24'', eparent = 0, is_folder = True\<rparr>,
           \<lparr>eid = 2, ename = ''Q2'', eparent = 1, is_folder = True\<rparr>])" by blast
  from w have "run_transcripts download_fails 1 [acme_transcript, acme_transcript]
      \<lparr>downloaded = 0, skipped = 0, failed = 0\<rparr> []
    = run_transcripts download_fails 2 [acme_transcript] \<lparr>downloaded = 0, skipped = 0, failed = 1\<rparr>
        [\<lparr>eid = 1, ename = ''FY24'', eparent = 0, is_folder = True\<rparr>,
         \<lparr>eid = 2, ename = ''Q2'', eparent = 1, is_folder = True\<rparr>]"
    by (simp add: numeral_2_eq_2)
  then have "download_and_upload_transcripts download_fails [acme_transcript, acme_transcript] []
       = (\<lparr>downloaded = 1, skipped = 0, failed = 1\<rparr>,
          [\<lparr>eid = 1, ename = ''FY24'', eparent = 0, is_folder = True\<rparr>,
           \<lparr>eid = 2, ename = ''Q2'', eparent = 1, is_folder = True\<rparr>,
           \<lparr>eid = 3, ename = ''Acme Corp - FY24 Q2 Transcript.pdf'', eparent = 2, is_folder = False\<rparr>])"
    unfolding download_and_upload_transcripts_def acme_second_time by simp
  with p acme_has_url acme_first_fault show ?thesis by blast
qed

end
